theory Spec2Isabelle
  imports Main "HOL-Library.Word"
begin

unbundle bit_operations_syntax

section \<open>The ownership index of fs/crypto/crypto.c\<close>

text \<open>
  The source keeps a global array \<open>cryptArray\<close> of \<open>DEDUP_TABLE_SIZE\<close> pointers to
  \<open>struct Cryptitem\<close>. A pointer is modelled as an optional entry (\<open>None\<close> is \<open>NULL\<close>);
  every slot is allocated on its own, so no two slots alias and the array is a function
  from the slot number to the optional entry. A fingerprint is a \<open>char[16]\<close>, here a list
  of bytes; the functions below read its first 16 elements.
\<close>

type_synonym fingerprint = "8 word list"

record Cryptitem =
  fingerprint_crypt :: fingerprint
  ino :: "64 word"

type_synonym table = "nat \<Rightarrow> Cryptitem option"

text \<open>
  \<open>#define DEDUP_TABLE_SIZE 1024*1024\<close>. The macro has no parentheses: where the
  source writes \<open>x % DEDUP_TABLE_SIZE\<close> the expression is \<open>(x % 1024) * 1024\<close>,
  where it writes \<open>x %= DEDUP_TABLE_SIZE\<close>, \<open>loop > DEDUP_TABLE_SIZE\<close> or declares
  the array, the value is the product.
\<close>

definition DEDUP_TABLE_SIZE :: nat where
  "DEDUP_TABLE_SIZE = 1024 * 1024"

text \<open>
  \<open>(size_t)finger[i]\<close> converts a \<open>char\<close>. Whether \<open>char\<close> is signed is fixed by
  the compiler and its flags (signed on x86 unless built with \<open>-funsigned-char\<close>), so it
  is a parameter: a signed char is sign-extended to the 64-bit \<open>size_t\<close>, an unsigned one
  zero-extended.
\<close>

definition char_to_size_t :: "bool \<Rightarrow> 8 word \<Rightarrow> 64 word" where
  "char_to_size_t char_signed c = (if char_signed then scast c else ucast c)"

text \<open>
  \<open>hashCrypt\<close>: the loop adds the 16 chars into \<open>hash\<close>; then
  \<open>hash = hash % DEDUP_TABLE_SIZE\<close>, which the preprocessor turns into
  \<open>hash = hash % 1024*1024\<close>.
\<close>

definition hashCrypt :: "bool \<Rightarrow> fingerprint \<Rightarrow> nat" where
  "hashCrypt char_signed finger =
     unat (((fold (\<lambda>c hash. hash + char_to_size_t char_signed c) (take 16 finger) 0)
              mod 1024) * 1024)"

text \<open>
  \<open>strncmp\<close> and \<open>strncpy\<close> of the C library (the kernel's lib/string.c): the
  comparison is on unsigned chars and ends at the first difference, after a NUL, or
  after \<open>count\<close> chars; the copy stops at a NUL and fills the rest of the \<open>count\<close>
  chars with NUL. An argument shorter than what is read does not occur (the buffers
  are \<open>char[16]\<close>); the equations for \<open>[]\<close> only make the functions total.
\<close>

fun strncmp :: "8 word list \<Rightarrow> 8 word list \<Rightarrow> nat \<Rightarrow> int" where
  "strncmp cs ct 0 = 0"
| "strncmp (c1 # cs) (c2 # ct) (Suc count) =
     (if c1 \<noteq> c2 then (if c1 < c2 then - 1 else 1)
      else if c1 = 0 then 0
      else strncmp cs ct count)"
| "strncmp [] ct (Suc count) = 0"
| "strncmp cs [] (Suc count) = 0"

fun strncpy :: "8 word list \<Rightarrow> nat \<Rightarrow> 8 word list" where
  "strncpy src 0 = []"
| "strncpy [] (Suc count) = replicate (Suc count) 0"
| "strncpy (c # src) (Suc count) =
     (if c = 0 then replicate (Suc count) 0 else c # strncpy src count)"

text \<open>
  \<open>crypt_search\<close>: the while loop, with the local variables \<open>hashIndex\<close> and
  \<open>loop\<close> as arguments. Both stay below \<open>DEDUP_TABLE_SIZE + 2\<close>, so \<open>nat\<close> is exact.
  The result is the entry the returned pointer points to.
\<close>

function crypt_search_loop ::
  "table \<Rightarrow> fingerprint \<Rightarrow> nat \<Rightarrow> nat \<Rightarrow> Cryptitem option" where
  "crypt_search_loop cryptArray finger hashIndex loop =
     (case cryptArray hashIndex of
        None \<Rightarrow> None
      | Some item \<Rightarrow>
          if strncmp (fingerprint_crypt item) finger 16 = 0 then Some item
          else if loop + 1 > DEDUP_TABLE_SIZE then None
          else crypt_search_loop cryptArray finger
                 ((hashIndex + 1) mod DEDUP_TABLE_SIZE) (loop + 1))"
  by pat_completeness auto
termination
  by (relation "measure (\<lambda>(cryptArray, finger, hashIndex, loop). DEDUP_TABLE_SIZE - loop)")
     auto

declare crypt_search_loop.simps [simp del]

definition crypt_search :: "bool \<Rightarrow> table \<Rightarrow> fingerprint \<Rightarrow> Cryptitem option" where
  "crypt_search char_signed cryptArray finger =
     crypt_search_loop cryptArray finger (hashCrypt char_signed finger) 0"

text \<open>
  \<open>crypttable_insert\<close>: the probe loop returns the slot it stops at, or \<open>None\<close> where
  the source returns 1 from inside the loop. The new item holds
  \<open>strncpy(crypt_item->fingerprint_crypt, finger, 16)\<close> and \<open>ino\<close>. The result is the
  returned int and the array.
\<close>

function insert_probe :: "table \<Rightarrow> nat \<Rightarrow> nat \<Rightarrow> nat option" where
  "insert_probe cryptArray hashIndex loop =
     (if (case cryptArray hashIndex of None \<Rightarrow> False | Some item \<Rightarrow> ino item > 0)
      then (if loop + 1 > DEDUP_TABLE_SIZE then None
            else insert_probe cryptArray ((hashIndex + 1) mod DEDUP_TABLE_SIZE) (loop + 1))
      else Some hashIndex)"
  by pat_completeness auto
termination
  by (relation "measure (\<lambda>(cryptArray, hashIndex, loop). DEDUP_TABLE_SIZE - loop)") auto

declare insert_probe.simps [simp del]

definition crypttable_insert ::
  "bool \<Rightarrow> fingerprint \<Rightarrow> 64 word \<Rightarrow> table \<Rightarrow> int \<times> table" where
  "crypttable_insert char_signed finger i cryptArray =
     (case insert_probe cryptArray (hashCrypt char_signed finger) 0 of
        None \<Rightarrow> (1, cryptArray)
      | Some hashIndex \<Rightarrow>
          (0, cryptArray(hashIndex \<mapsto>
                \<lparr>fingerprint_crypt = strncpy finger 16, ino = i\<rparr>)))"

text \<open>
  The encrypt path's use of the index, on the array in memory:
  \<open>if (!crypt_search(digest)) crypttable_insert(digest, inode->i_ino);\<close>
  The int that \<open>crypttable_insert\<close> returns is dropped.
\<close>

definition search_then_insert :: "bool \<Rightarrow> fingerprint \<Rightarrow> 64 word \<Rightarrow> table \<Rightarrow> table" where
  "search_then_insert char_signed digest i cryptArray =
     (if crypt_search char_signed cryptArray digest = None
      then snd (crypttable_insert char_signed digest i cryptArray)
      else cryptArray)"

text \<open>Vocabulary of the statements: the k-th slot of a probe sequence, a live slot, a
  slot whose stored fingerprint \<open>strncmp\<close> tells apart from the query.\<close>

definition probe :: "nat \<Rightarrow> nat \<Rightarrow> nat" where
  "probe hashIndex k = (hashIndex + k) mod DEDUP_TABLE_SIZE"

definition live :: "table \<Rightarrow> nat \<Rightarrow> bool" where
  "live cryptArray i = (case cryptArray i of None \<Rightarrow> False | Some item \<Rightarrow> ino item > 0)"

definition differs :: "table \<Rightarrow> fingerprint \<Rightarrow> nat \<Rightarrow> bool" where
  "differs cryptArray finger i =
     (case cryptArray i of None \<Rightarrow> False
      | Some item \<Rightarrow> strncmp (fingerprint_crypt item) finger 16 \<noteq> 0)"

text \<open>The sum of the first 16 bytes read as unsigned integers.\<close>

definition byte_sum :: "fingerprint \<Rightarrow> nat" where
  "byte_sum finger = sum_list (map unat (take 16 finger))"

section \<open>The backing file and the whole-table loops\<close>

text \<open>
  The file \<open>/citable\<close> holds records of \<open>sizeof(struct Cryptitem)\<close> bytes. It is
  modelled by the number of whole records it holds and their contents; a file that
  does not exist yet reads like an empty one. \<open>pos_ci\<close> is counted in records.
  \<open>kernel_read\<close> at or past the end of the file reads nothing and leaves \<open>pos_ci\<close>
  and the item as they are; \<open>kernel_read\<close> and \<open>kernel_write\<close> with a \<open>NULL\<close> buffer
  transfer nothing. Failing I/O is not modelled.
\<close>

record cifile =
  flen :: nat
  frec :: "nat \<Rightarrow> Cryptitem"

text \<open>
  The first loop of both callers: every \<open>NULL\<close> slot gets a fresh item with
  \<open>ino = 0\<close>. \<open>kmalloc\<close> does not clear memory, so the fingerprint of the fresh item
  of slot \<open>i\<close> is whatever the allocation holds, the parameter \<open>garbage i\<close>.
  An allocation that fails (the source then dereferences \<open>NULL\<close>) is not modelled.
\<close>

function bootstrap_loop :: "(nat \<Rightarrow> fingerprint) \<Rightarrow> nat \<Rightarrow> table \<Rightarrow> table" where
  "bootstrap_loop garbage hashIndex cryptArray =
     (if hashIndex < DEDUP_TABLE_SIZE
      then bootstrap_loop garbage (hashIndex + 1)
             (if cryptArray hashIndex = None
              then cryptArray(hashIndex \<mapsto> \<lparr>fingerprint_crypt = garbage hashIndex, ino = 0\<rparr>)
              else cryptArray)
      else cryptArray)"
  by pat_completeness auto
termination
  by (relation "measure (\<lambda>(garbage, hashIndex, cryptArray). DEDUP_TABLE_SIZE - hashIndex)") auto

declare bootstrap_loop.simps [simp del]

text \<open>The second loop: \<open>kernel_read(ci_table, cryptArray[hashIndex], sizeof(struct
  Cryptitem), &pos_ci)\<close> for every slot.\<close>

function read_loop :: "cifile \<Rightarrow> nat \<Rightarrow> nat \<Rightarrow> table \<Rightarrow> table" where
  "read_loop file hashIndex pos_ci cryptArray =
     (if hashIndex < DEDUP_TABLE_SIZE
      then (if cryptArray hashIndex \<noteq> None \<and> pos_ci < flen file
            then read_loop file (hashIndex + 1) (pos_ci + 1)
                   (cryptArray(hashIndex \<mapsto> frec file pos_ci))
            else read_loop file (hashIndex + 1) pos_ci cryptArray)
      else cryptArray)"
  by pat_completeness auto
termination
  by (relation "measure (\<lambda>(file, hashIndex, pos_ci, cryptArray). DEDUP_TABLE_SIZE - hashIndex)")
     auto

declare read_loop.simps [simp del]

text \<open>The last loop of the encrypt path: \<open>kernel_write\<close> of every slot's item.\<close>

function write_loop :: "table \<Rightarrow> nat \<Rightarrow> nat \<Rightarrow> cifile \<Rightarrow> cifile" where
  "write_loop cryptArray hashIndex pos_ci file =
     (if hashIndex < DEDUP_TABLE_SIZE
      then (case cryptArray hashIndex of
              None \<Rightarrow> write_loop cryptArray (hashIndex + 1) pos_ci file
            | Some item \<Rightarrow>
                write_loop cryptArray (hashIndex + 1) (pos_ci + 1)
                  \<lparr>flen = max (flen file) (pos_ci + 1), frec = (frec file)(pos_ci := item)\<rparr>)
      else file)"
  by pat_completeness auto
termination
  by (relation "measure (\<lambda>(cryptArray, hashIndex, pos_ci, file). DEDUP_TABLE_SIZE - hashIndex)")
     auto

declare write_loop.simps [simp del]

text \<open>The array and the file agree: the file holds at least \<open>DEDUP_TABLE_SIZE\<close>
  records and record \<open>i\<close> is the item of slot \<open>i\<close>.\<close>

definition in_sync :: "table \<Rightarrow> cifile \<Rightarrow> bool" where
  "in_sync cryptArray file \<longleftrightarrow>
     DEDUP_TABLE_SIZE \<le> flen file
     \<and> (\<forall>i < DEDUP_TABLE_SIZE. cryptArray i = Some (frec file i))"

section \<open>The block operations\<close>

text \<open>
  What the file reads of the kernel's objects. \<open>ci_tfm\<close> stands for
  \<open>ci->ci_enc_key.tfm\<close>, the key context handed to the cipher; \<open>ci_policy_flags\<close> for
  \<open>fscrypt_policy_flags(&ci->ci_policy)\<close>; \<open>ci_ivsize\<close> for \<open>ci->ci_mode->ivsize\<close>;
  \<open>ci_inode_ino\<close> for \<open>ci->ci_inode->i_ino\<close>. A page is referred to by a number, and
  the state maps it to the page, so that an operation whose source and destination
  are the same page sees its own writes.
\<close>

datatype fscrypt_direction_t = FS_DECRYPT | FS_ENCRYPT

record Fingercryptitem =
  lbr_fingerprint_crypt :: fingerprint
  lblk_num :: "64 word"

record fscrypt_info =
  ci_tfm :: nat
  ci_policy_flags :: "8 word"
  ci_ivsize :: nat
  ci_inode_ino :: "64 word"
  ci_hashed_ino :: "32 word"
  ci_nonce :: "8 word list"

record inode =
  i_ino :: "64 word"
  i_blkbits :: nat
  i_crypt_info :: fscrypt_info

record page =
  PageLocked :: bool
  page_index :: "64 word"
  page_host :: inode
  page_data :: "8 word list"

text \<open>The value an operation returns: 0, \<open>-EINVAL\<close>, \<open>-ENOMEM\<close>, or the non-zero
  result of the cipher.\<close>

datatype retval = Success | EINVAL | ENOMEM | CipherError int

text \<open>The calls to the collaborators, in the order in which they are made. The three
  loops over the array are not recorded; their effect is on the array and the file.\<close>

datatype event =
    Read_finger_blk_table
  | Finger_crypt_search fingerprint
  | Skcipher fscrypt_direction_t nat "8 word list"
  | Filp_open
  | Filp_close
  | F2fs_iget "64 word"

record kstate =
  cryptArray :: table
  citable :: cifile
  pages :: "nat \<Rightarrow> page"
  calls :: "event list"

text \<open>
  What is declared in crypto.c or its headers and defined elsewhere, taken as
  parameters: the digest \<open>hash_page_data\<close> of a page's bytes; the result of
  \<open>finger_crypt_search\<close> on the table that \<open>read_finger_blk_table_from_file\<close> has
  just loaded; whether \<open>skcipher_request_alloc\<close> succeeds; the cipher, which from
  direction, key context, IV, source bytes, destination bytes, \<open>len\<close> and \<open>offs\<close>
  gives its result and the new destination bytes; \<open>f2fs_iget\<close> and the inode as
  \<open>fscrypt_require_key\<close> leaves it (the int it returns is dropped by the caller); the
  bytes of fresh allocations; the signedness of \<open>char\<close>; and the constants
  \<open>FSCRYPT_CONTENTS_ALIGNMENT\<close>, \<open>PAGE_SHIFT\<close> and the three policy flags.
\<close>

record env =
  char_signed :: bool
  hash_page_data :: "8 word list \<Rightarrow> fingerprint"
  finger_crypt_search :: "fingerprint \<Rightarrow> Fingercryptitem option"
  skcipher_request_alloc :: bool
  crypto_skcipher :: "fscrypt_direction_t \<Rightarrow> nat \<Rightarrow> 8 word list \<Rightarrow> 8 word list
     \<Rightarrow> 8 word list \<Rightarrow> 32 word \<Rightarrow> 32 word \<Rightarrow> int \<times> 8 word list"
  f2fs_iget :: "64 word \<Rightarrow> inode"
  fscrypt_require_key :: "inode \<Rightarrow> inode"
  kmalloc_garbage :: "nat \<Rightarrow> fingerprint"
  FSCRYPT_CONTENTS_ALIGNMENT :: "32 word"
  PAGE_SHIFT :: nat
  FSCRYPT_POLICY_FLAG_DIRECT_KEY :: "8 word"
  FSCRYPT_POLICY_FLAG_IV_INO_LBLK_64 :: "8 word"
  FSCRYPT_POLICY_FLAG_IV_INO_LBLK_32 :: "8 word"

text \<open>
  \<open>fscrypt_generate_iv\<close>. The union is 32 bytes: \<open>lblk_num\<close> as \<open>__le64\<close>, then the
  16 bytes of \<open>nonce\<close>, then 8 more. \<open>memset\<close> clears the first \<open>ivsize\<close> bytes and the
  cipher reads the first \<open>ivsize\<close> bytes, so the IV is that prefix.
\<close>

definition le64_bytes :: "64 word \<Rightarrow> 8 word list" where
  "le64_bytes w = map (\<lambda>k. ucast (drop_bit (8 * k) w)) [0..<8]"

definition fscrypt_generate_iv :: "env \<Rightarrow> 64 word \<Rightarrow> fscrypt_info \<Rightarrow> 8 word list" where
  "fscrypt_generate_iv e lblk ci =
     (let flags = ci_policy_flags ci;
          ino_lblk_64 = (flags AND FSCRYPT_POLICY_FLAG_IV_INO_LBLK_64 e \<noteq> 0);
          ino_lblk_32 = (flags AND FSCRYPT_POLICY_FLAG_IV_INO_LBLK_32 e \<noteq> 0);
          direct_key = (flags AND FSCRYPT_POLICY_FLAG_DIRECT_KEY e \<noteq> 0);
          lblk1 = (if ino_lblk_64 then lblk OR push_bit 32 (ci_inode_ino ci)
                   else if ino_lblk_32
                   then ucast (ucast (ucast (ci_hashed_ino ci) + lblk :: 64 word) :: 32 word)
                   else lblk);
          nonce = (if \<not> ino_lblk_64 \<and> \<not> ino_lblk_32 \<and> direct_key
                   then take 16 (ci_nonce ci) else replicate 16 0)
      in take (ci_ivsize ci) (le64_bytes lblk1 @ nonce @ replicate 8 0))"

text \<open>
  The block of \<open>fscrypt_crypt_block\<close> under \<open>if (rw == FS_ENCRYPT)\<close>, after the
  cipher succeeded: open the file, give every \<open>NULL\<close> slot an item, read the whole
  array from the file, record the owner of the digest of \<open>dest_page\<close> unless
  \<open>crypt_search\<close> finds the digest, write the whole array, close the file.
\<close>

definition reload :: "env \<Rightarrow> kstate \<Rightarrow> table" where
  "reload e s = read_loop (citable s) 0 0 (bootstrap_loop (kmalloc_garbage e) 0 (cryptArray s))"

definition encrypt_post_step :: "env \<Rightarrow> inode \<Rightarrow> nat \<Rightarrow> kstate \<Rightarrow> kstate" where
  "encrypt_post_step e inode dest_page s =
     (let arr = reload e s;
          digest = hash_page_data e (page_data (pages s dest_page));
          arr1 = search_then_insert (char_signed e) digest (i_ino inode) arr
      in s\<lparr>cryptArray := arr1,
           citable := write_loop arr1 0 0 (citable s),
           calls := calls s @ [Filp_open, Filp_close]\<rparr>)"

text \<open>
  \<open>fscrypt_crypt_block\<close>. On decrypt the tables of the logical-block index are read
  from their file and searched with the digest of \<open>src_page\<close> first; the checks of
  \<open>len\<close> come after that. \<open>len\<close> is unsigned, so \<open>len <= 0\<close> is \<open>len = 0\<close>.
\<close>

definition fscrypt_crypt_block ::
  "env \<Rightarrow> inode \<Rightarrow> fscrypt_direction_t \<Rightarrow> 64 word \<Rightarrow> nat \<Rightarrow> nat \<Rightarrow> 32 word \<Rightarrow> 32 word
     \<Rightarrow> kstate \<Rightarrow> retval \<times> kstate" where
  "fscrypt_crypt_block e inode rw lblk src_page dest_page len offs s =
     (let ci = i_crypt_info inode;
          tfm = ci_tfm ci;
          digest = hash_page_data e (page_data (pages s src_page));
          s1 = (if rw = FS_DECRYPT
                then s\<lparr>calls := calls s @ [Read_finger_blk_table, Finger_crypt_search digest]\<rparr>
                else s);
          lblk1 = (if rw = FS_DECRYPT
                   then (case finger_crypt_search e digest of
                           Some finger_crypt_item \<Rightarrow> lblk_num finger_crypt_item
                         | None \<Rightarrow> lblk)
                   else lblk)
      in if len = 0 then (EINVAL, s1)
         else if len mod FSCRYPT_CONTENTS_ALIGNMENT e \<noteq> 0 then (EINVAL, s1)
         else
           (let iv = fscrypt_generate_iv e lblk1 ci
            in if \<not> skcipher_request_alloc e then (ENOMEM, s1)
               else
                 (let res = crypto_skcipher e rw tfm iv (page_data (pages s1 src_page))
                              (page_data (pages s1 dest_page)) len offs;
                      s2 = s1\<lparr>pages := (pages s1)
                                 (dest_page := (pages s1 dest_page)\<lparr>page_data := snd res\<rparr>),
                              calls := calls s1 @ [Skcipher rw tfm iv]\<rparr>
                  in if fst res \<noteq> 0 then (CipherError (fst res), s2)
                     else if rw = FS_ENCRYPT
                     then (Success, encrypt_post_step e inode dest_page s2)
                     else (Success, s2))))"

text \<open>
  \<open>fscrypt_decrypt_pagecache_blocks\<close>. The loop
  \<open>for (i = offs; i < offs + len; i += blocksize, lblk_num++)\<close> is on 32-bit unsigned
  ints; nothing in the loop itself bounds it (a block size of 0 would never advance),
  so it is a partial function and \<open>None\<close> stands for not returning.
  \<open>IS_ALIGNED(x, a)\<close> is \<open>((x) & ((a) - 1)) == 0\<close>.
\<close>

partial_function (option) decrypt_blocks ::
  "env \<Rightarrow> inode \<Rightarrow> nat \<Rightarrow> 32 word \<Rightarrow> 32 word \<Rightarrow> 32 word \<Rightarrow> 64 word \<Rightarrow> kstate
     \<Rightarrow> (retval \<times> kstate) option" where
  "decrypt_blocks e inode pg blocksize bound i lblk s =
     (if i < bound
      then (let r = fscrypt_crypt_block e inode FS_DECRYPT lblk pg pg blocksize i s
            in if fst r \<noteq> Success then Some r
               else decrypt_blocks e inode pg blocksize bound (i + blocksize) (lblk + 1) (snd r))
      else Some (Success, s))"

definition IS_ALIGNED :: "32 word \<Rightarrow> 32 word \<Rightarrow> bool" where
  "IS_ALIGNED x a \<longleftrightarrow> x AND (a - 1) = 0"

definition owner_inode :: "env \<Rightarrow> inode \<Rightarrow> Cryptitem option \<Rightarrow> inode" where
  "owner_inode e inode crypt_item =
     (case crypt_item of
        Some item \<Rightarrow> fscrypt_require_key e (f2fs_iget e (ino item))
      | None \<Rightarrow> inode)"

definition fscrypt_decrypt_pagecache_blocks ::
  "env \<Rightarrow> nat \<Rightarrow> 32 word \<Rightarrow> 32 word \<Rightarrow> kstate \<Rightarrow> (retval \<times> kstate) option" where
  "fscrypt_decrypt_pagecache_blocks e pg len offs s =
     (let inode = page_host (pages s pg);
          blockbits = i_blkbits inode;
          blocksize = push_bit blockbits 1;
          lblk = push_bit (PAGE_SHIFT e - blockbits) (page_index (pages s pg))
                   + ucast (drop_bit blockbits offs);
          s1 = s\<lparr>calls := calls s @ [Filp_open]\<rparr>
      in if \<not> PageLocked (pages s pg) then Some (EINVAL, s1)
         else if len = 0 \<or> \<not> IS_ALIGNED (len OR offs) blocksize then Some (EINVAL, s1)
         else
           (let arr = reload e s1;
                crypt_item = crypt_search (char_signed e) arr
                               (hash_page_data e (page_data (pages s1 pg)));
                s2 = s1\<lparr>cryptArray := arr,
                        calls := calls s1 @ (case crypt_item of
                                   Some item \<Rightarrow> [F2fs_iget (ino item)] | None \<Rightarrow> [])\<rparr>
            in decrypt_blocks e (owner_inode e inode crypt_item) pg blocksize (offs + len)
                 offs lblk s2))"

text \<open>\<open>fscrypt_decrypt_block_inplace\<close> and \<open>fscrypt_encrypt_block_inplace\<close> pass
  their arguments on, with the page as both source and destination.\<close>

definition fscrypt_decrypt_block_inplace ::
  "env \<Rightarrow> inode \<Rightarrow> nat \<Rightarrow> 32 word \<Rightarrow> 32 word \<Rightarrow> 64 word \<Rightarrow> kstate \<Rightarrow> retval \<times> kstate" where
  "fscrypt_decrypt_block_inplace e inode pg len offs lblk s =
     fscrypt_crypt_block e inode FS_DECRYPT lblk pg pg len offs s"

definition fscrypt_encrypt_block_inplace ::
  "env \<Rightarrow> inode \<Rightarrow> nat \<Rightarrow> 32 word \<Rightarrow> 32 word \<Rightarrow> 64 word \<Rightarrow> kstate \<Rightarrow> retval \<times> kstate" where
  "fscrypt_encrypt_block_inplace e inode pg len offs lblk s =
     fscrypt_crypt_block e inode FS_ENCRYPT lblk pg pg len offs s"

text \<open>What the page-level decrypt finds for a page: the result of \<open>crypt_search\<close>
  for the page's digest on the array as reloaded from the file.\<close>

definition looked_up :: "env \<Rightarrow> nat \<Rightarrow> kstate \<Rightarrow> Cryptitem option" where
  "looked_up e pg s =
     crypt_search (char_signed e) (reload e s) (hash_page_data e (page_data (pages s pg)))"

text \<open>An event is a cipher call with a key context other than \<open>tfm\<close>.\<close>

fun foreign_key :: "nat \<Rightarrow> event \<Rightarrow> bool" where
  "foreign_key tfm (Skcipher rw tfm' iv) = (tfm' \<noteq> tfm)"
| "foreign_key tfm ev = False"

section \<open>Inputs used in the evaluations below\<close>

text \<open>Three fingerprints of 16 bytes; the first two differ only after a leading NUL
  byte and have the same hash.\<close>

definition fp_a :: fingerprint where "fp_a = [0,1,0,0,0,0,0,0,0,0,0,0,0,0,0,0]"
definition fp_b :: fingerprint where "fp_b = [0,0,1,0,0,0,0,0,0,0,0,0,0,0,0,0]"
definition fp_one :: fingerprint where "fp_one = [1,0,0,0,0,0,0,0,0,0,0,0,0,0,0,0]"

text \<open>The array after the encrypt path recorded \<open>fp_a\<close> for inode 7 and then \<open>fp_b\<close>
  for inode 9, starting with every slot \<open>NULL\<close>.\<close>

definition two_inserts :: "bool \<Rightarrow> table" where
  "two_inserts sgn_char =
     search_then_insert sgn_char fp_b 9 (search_then_insert sgn_char fp_a 7 (\<lambda>i. None))"

text \<open>An array whose every slot is live and stores the all-zero fingerprint.\<close>

definition full_table :: table where
  "full_table = (\<lambda>i. Some \<lparr>fingerprint_crypt = [0,0,0,0,0,0,0,0,0,0,0,0,0,0,0,0], ino = 1\<rparr>)"

text \<open>An inode with number 7 and 4096-byte blocks, a locked page of it whose first 16
  bytes are \<open>fp_one\<close>, and collaborators: the digest is the first 16 bytes, the
  logical-block index knows \<open>fp_one\<close> with block number 5, the cipher copies the source,
  inode number \<open>n\<close> has key context \<open>n\<close>, fresh allocations hold 0xff bytes.\<close>

definition ci7 :: fscrypt_info where
  "ci7 = \<lparr>ci_tfm = 7, ci_policy_flags = 0, ci_ivsize = 16, ci_inode_ino = 7,
          ci_hashed_ino = 0, ci_nonce = []\<rparr>"

definition inode7 :: inode where
  "inode7 = \<lparr>i_ino = 7, i_blkbits = 12, i_crypt_info = ci7\<rparr>"

definition page7 :: page where
  "page7 = \<lparr>PageLocked = True, page_index = 0, page_host = inode7,
            page_data = fp_one @ replicate 4080 0\<rparr>"

definition env0 :: env where
  "env0 = \<lparr>char_signed = True,
            hash_page_data = take 16,
            finger_crypt_search = (\<lambda>f. if f = fp_one
               then Some \<lparr>lbr_fingerprint_crypt = fp_one, lblk_num = 5\<rparr> else None),
            skcipher_request_alloc = True,
            crypto_skcipher = (\<lambda>rw tfm iv src dst len offs. (0, src)),
            f2fs_iget = (\<lambda>n. \<lparr>i_ino = n, i_blkbits = 12,
               i_crypt_info = ci7\<lparr>ci_tfm := unat n, ci_inode_ino := n\<rparr>\<rparr>),
            fscrypt_require_key = (\<lambda>i. i),
            kmalloc_garbage = (\<lambda>i. [255,255,255,255,255,255,255,255,
                                      255,255,255,255,255,255,255,255]),
            FSCRYPT_CONTENTS_ALIGNMENT = 16,
            PAGE_SHIFT = 12,
            FSCRYPT_POLICY_FLAG_DIRECT_KEY = 4,
            FSCRYPT_POLICY_FLAG_IV_INO_LBLK_64 = 8,
            FSCRYPT_POLICY_FLAG_IV_INO_LBLK_32 = 16\<rparr>"

text \<open>The state before the first operation: every slot \<open>NULL\<close>, no file yet.\<close>

definition s0 :: kstate where
  "s0 = \<lparr>cryptArray = (\<lambda>i. None),
          citable = \<lparr>flen = 0, frec = (\<lambda>i. \<lparr>fingerprint_crypt = [], ino = 0\<rparr>)\<rparr>,
          pages = (\<lambda>n. page7),
          calls = []\<rparr>"

text \<open>The state after a block of inode 9 whose ciphertext page is page 0 went through
  the encrypt post-step, starting from \<open>s0\<close>.\<close>

definition s9 :: kstate where
  "s9 = encrypt_post_step env0 (f2fs_iget env0 9) 0 s0"

section \<open>Properties of the probe loops\<close>

lemma DEDUP_pos: "0 < DEDUP_TABLE_SIZE"
  by (simp add: DEDUP_TABLE_SIZE_def)

lemma probe_less: "probe h k < DEDUP_TABLE_SIZE"
  by (simp add: probe_def DEDUP_pos)

lemma probe_0: "h < DEDUP_TABLE_SIZE \<Longrightarrow> probe h 0 = h"
  by (simp add: probe_def)

lemma probe_step: "probe ((h + 1) mod DEDUP_TABLE_SIZE) k = probe h (Suc k)"
  by (simp add: probe_def mod_add_left_eq mod_Suc_eq)

lemma probe_step': "probe (Suc h mod DEDUP_TABLE_SIZE) k = probe h (Suc k)"
  using probe_step [of h k] by simp

lemma hashCrypt_less: "hashCrypt cs finger < DEDUP_TABLE_SIZE"
proof -
  have "unat (w mod 1024 * 1024) < 1024 * 1024" for w :: "64 word"
  proof -
    have "unat (w mod 1024) < 1024"
      by (simp add: unat_mod_distrib)
    then have "unat (w mod 1024) * 1024 < 1024 * 1024" by simp
    moreover have "unat (w mod 1024 * 1024) \<le> unat (w mod 1024) * 1024"
      by (simp add: unat_word_ariths)
    ultimately show ?thesis by simp
  qed
  then show ?thesis by (simp add: hashCrypt_def DEDUP_TABLE_SIZE_def)
qed

lemma crypt_search_loop_Some_iff:
  "h < DEDUP_TABLE_SIZE \<Longrightarrow>
   crypt_search_loop arr f h l = Some it \<longleftrightarrow>
     (\<exists>k \<le> DEDUP_TABLE_SIZE - l. arr (probe h k) = Some it
        \<and> strncmp (fingerprint_crypt it) f 16 = 0
        \<and> (\<forall>j<k. differs arr f (probe h j)))"
proof (induction arr f h l rule: crypt_search_loop.induct)
  case (1 arr f h l)
  let ?R = "\<lambda>h l. \<exists>k \<le> DEDUP_TABLE_SIZE - l. arr (probe h k) = Some it
        \<and> strncmp (fingerprint_crypt it) f 16 = 0
        \<and> (\<forall>j<k. differs arr f (probe h j))"
  show ?case
  proof (cases "arr h")
    case None
    have "\<not> ?R h l"
    proof
      assume "?R h l"
      then obtain k where k: "arr (probe h k) = Some it" "\<forall>j<k. differs arr f (probe h j)"
        by blast
      show False
      proof (cases k)
        case 0 with k None 1(2) show False by (simp add: probe_0)
      next
        case (Suc n)
        with k have "differs arr f (probe h 0)" by blast
        with None 1(2) show False by (simp add: probe_0 differs_def)
      qed
    qed
    with None show ?thesis by (simp add: crypt_search_loop.simps [of arr f h l])
  next
    case (Some item)
    show ?thesis
    proof (cases "strncmp (fingerprint_crypt item) f 16 = 0")
      case True
      have "?R h l \<longleftrightarrow> it = item"
      proof
        assume "?R h l"
        then obtain k where k: "arr (probe h k) = Some it" "\<forall>j<k. differs arr f (probe h j)"
          by blast
        show "it = item"
        proof (cases k)
          case 0 with k Some 1(2) show ?thesis by (simp add: probe_0)
        next
          case (Suc n)
          with k have "differs arr f (probe h 0)" by blast
          with Some True 1(2) show ?thesis by (simp add: probe_0 differs_def)
        qed
      next
        assume "it = item"
        with Some True 1(2) have "arr (probe h 0) = Some it \<and> strncmp (fingerprint_crypt it) f 16 = 0
           \<and> (\<forall>j<0. differs arr f (probe h j))" by (simp add: probe_0)
        then show "?R h l" by blast
      qed
      with Some True show ?thesis
        by (auto simp add: crypt_search_loop.simps [of arr f h l])
    next
      case False
      have d0: "differs arr f (probe h 0)"
        using Some False 1(2) by (simp add: probe_0 differs_def)
      show ?thesis
      proof (cases "l + 1 > DEDUP_TABLE_SIZE")
        case True
        have "\<not> ?R h l"
        proof
          assume "?R h l"
          then obtain k where k: "k \<le> DEDUP_TABLE_SIZE - l" "arr (probe h k) = Some it"
            "strncmp (fingerprint_crypt it) f 16 = 0" by blast
          with True have "k = 0" by simp
          with k Some False 1(2) show False by (simp add: probe_0)
        qed
        with Some False True show ?thesis
          by (simp add: crypt_search_loop.simps [of arr f h l])
      next
        case lt: False
        have IH: "crypt_search_loop arr f ((h + 1) mod DEDUP_TABLE_SIZE) (l + 1) = Some it
           \<longleftrightarrow> ?R ((h + 1) mod DEDUP_TABLE_SIZE) (l + 1)"
          using 1(1) [OF Some False lt] DEDUP_pos by simp
        have "?R ((h + 1) mod DEDUP_TABLE_SIZE) (l + 1) \<longleftrightarrow> ?R h l"
        proof
          assume "?R ((h + 1) mod DEDUP_TABLE_SIZE) (l + 1)"
          then obtain k where k: "k \<le> DEDUP_TABLE_SIZE - (l + 1)"
             "arr (probe h (Suc k)) = Some it" "strncmp (fingerprint_crypt it) f 16 = 0"
             "\<forall>j<k. differs arr f (probe h (Suc j))"
            by (auto simp add: probe_step')
          have "\<forall>j<Suc k. differs arr f (probe h j)"
          proof (intro allI impI)
            fix j assume "j < Suc k"
            then show "differs arr f (probe h j)"
              using d0 k(4) by (cases j) auto
          qed
          moreover have "Suc k \<le> DEDUP_TABLE_SIZE - l" using k(1) lt by simp
          ultimately show "?R h l" using k(2,3) by blast
        next
          assume "?R h l"
          then obtain k where k: "k \<le> DEDUP_TABLE_SIZE - l"
             "arr (probe h k) = Some it" "strncmp (fingerprint_crypt it) f 16 = 0"
             "\<forall>j<k. differs arr f (probe h j)" by blast
          have "k \<noteq> 0"
          proof
            assume "k = 0"
            with k Some False 1(2) show False by (simp add: probe_0)
          qed
          then obtain n where n: "k = Suc n" by (cases k) auto
          have "n \<le> DEDUP_TABLE_SIZE - (l + 1)" using k(1) n by simp
          moreover have "\<forall>j<n. differs arr f (probe ((h + 1) mod DEDUP_TABLE_SIZE) j)"
            using k(4) n by (simp add: probe_step')
          moreover have "arr (probe ((h + 1) mod DEDUP_TABLE_SIZE) n) = Some it"
            using k(2) n by (simp add: probe_step')
          ultimately show "?R ((h + 1) mod DEDUP_TABLE_SIZE) (l + 1)" using k(3) by blast
        qed
        with IH Some False lt show ?thesis
          by (simp add: crypt_search_loop.simps [of arr f h l])
      qed
    qed
  qed
qed


lemma insert_probe_Some_iff:
  "h < DEDUP_TABLE_SIZE \<Longrightarrow>
   insert_probe arr h l = Some p \<longleftrightarrow>
     (\<exists>k \<le> DEDUP_TABLE_SIZE - l. p = probe h k \<and> \<not> live arr p
        \<and> (\<forall>j<k. live arr (probe h j)))"
proof (induction arr h l rule: insert_probe.induct)
  case (1 arr h l)
  let ?R = "\<lambda>h l. \<exists>k \<le> DEDUP_TABLE_SIZE - l. p = probe h k \<and> \<not> live arr p
        \<and> (\<forall>j<k. live arr (probe h j))"
  show ?case
  proof (cases "live arr h")
    case False
    have "?R h l \<longleftrightarrow> p = h"
    proof
      assume "?R h l"
      then obtain k where k: "p = probe h k" "\<forall>j<k. live arr (probe h j)" by blast
      show "p = h"
      proof (cases k)
        case 0 with k 1(2) show ?thesis by (simp add: probe_0)
      next
        case (Suc n)
        with k have "live arr (probe h 0)" by blast
        with False 1(2) show ?thesis by (simp add: probe_0)
      qed
    next
      assume "p = h"
      with False 1(2) have "p = probe h 0 \<and> \<not> live arr p \<and> (\<forall>j<0. live arr (probe h j))"
        by (simp add: probe_0)
      then show "?R h l" by blast
    qed
    with False show ?thesis
      by (auto simp add: insert_probe.simps [of arr h l] live_def)
  next
    case True
    have l0: "live arr (probe h 0)" using True 1(2) by (simp add: probe_0)
    show ?thesis
    proof (cases "l + 1 > DEDUP_TABLE_SIZE")
      case full: True
      have "\<not> ?R h l"
      proof
        assume "?R h l"
        then obtain k where k: "k \<le> DEDUP_TABLE_SIZE - l" "p = probe h k" "\<not> live arr p"
          by blast
        with full have "k = 0" by simp
        with k True 1(2) show False by (simp add: probe_0)
      qed
      with True full show ?thesis
        by (simp add: insert_probe.simps [of arr h l] live_def)
    next
      case lt: False
      have c: "case arr h of None \<Rightarrow> False | Some item \<Rightarrow> 0 < ino item"
        using True by (simp add: live_def)
      have IH: "insert_probe arr ((h + 1) mod DEDUP_TABLE_SIZE) (l + 1) = Some p
           \<longleftrightarrow> ?R ((h + 1) mod DEDUP_TABLE_SIZE) (l + 1)"
        using 1(1) [OF c lt] DEDUP_pos by simp
      have "?R ((h + 1) mod DEDUP_TABLE_SIZE) (l + 1) \<longleftrightarrow> ?R h l"
      proof
        assume "?R ((h + 1) mod DEDUP_TABLE_SIZE) (l + 1)"
        then obtain k where k: "k \<le> DEDUP_TABLE_SIZE - (l + 1)"
           "p = probe h (Suc k)" "\<not> live arr p"
           "\<forall>j<k. live arr (probe h (Suc j))"
          by (auto simp add: probe_step')
        have "\<forall>j<Suc k. live arr (probe h j)"
        proof (intro allI impI)
          fix j assume "j < Suc k"
          then show "live arr (probe h j)"
            using l0 k(4) by (cases j) auto
        qed
        moreover have "Suc k \<le> DEDUP_TABLE_SIZE - l" using k(1) lt by simp
        ultimately show "?R h l" using k(2,3) by blast
      next
        assume "?R h l"
        then obtain k where k: "k \<le> DEDUP_TABLE_SIZE - l"
           "p = probe h k" "\<not> live arr p"
           "\<forall>j<k. live arr (probe h j)" by blast
        have "k \<noteq> 0"
        proof
          assume "k = 0"
          with k True 1(2) show False by (simp add: probe_0)
        qed
        then obtain n where n: "k = Suc n" by (cases k) auto
        have "n \<le> DEDUP_TABLE_SIZE - (l + 1)" using k(1) n by simp
        moreover have "\<forall>j<n. live arr (probe ((h + 1) mod DEDUP_TABLE_SIZE) j)"
          using k(4) n by (simp add: probe_step')
        moreover have "p = probe ((h + 1) mod DEDUP_TABLE_SIZE) n"
          using k(2) n by (simp add: probe_step')
        ultimately show "?R ((h + 1) mod DEDUP_TABLE_SIZE) (l + 1)" using k(3) by blast
      qed
      with IH True lt show ?thesis
        by (simp add: insert_probe.simps [of arr h l] live_def)
    qed
  qed
qed

text \<open>Every slot number below the table size is met within the first
  \<open>DEDUP_TABLE_SIZE\<close> probes.\<close>

lemma probe_surj:
  assumes "h < DEDUP_TABLE_SIZE" "i < DEDUP_TABLE_SIZE"
  shows "\<exists>k < DEDUP_TABLE_SIZE. probe h k = i"
proof (cases "h \<le> i")
  case True
  then have "probe h (i - h) = i" using assms by (simp add: probe_def)
  moreover have "i - h < DEDUP_TABLE_SIZE" using assms by simp
  ultimately show ?thesis by blast
next
  case False
  then have "probe h (DEDUP_TABLE_SIZE - h + i) = i" using assms by (simp add: probe_def)
  moreover have "DEDUP_TABLE_SIZE - h + i < DEDUP_TABLE_SIZE" using assms False by simp
  ultimately show ?thesis by blast
qed

lemma least_stop:
  assumes "\<not> P (k::nat)"
  shows "\<exists>m \<le> k. \<not> P m \<and> (\<forall>j<m. P j)"
proof -
  let ?m = "LEAST m. \<not> P m"
  have "\<not> P ?m" using assms by (rule LeastI)
  moreover have "?m \<le> k" using assms by (rule Least_le)
  moreover have "\<forall>j<?m. P j" using not_less_Least by blast
  ultimately show ?thesis by blast
qed

lemma insert_probe_None_iff:
  assumes "h < DEDUP_TABLE_SIZE"
  shows "insert_probe arr h 0 = None \<longleftrightarrow> (\<forall>i < DEDUP_TABLE_SIZE. live arr i)"
proof
  assume N: "insert_probe arr h 0 = None"
  show "\<forall>i < DEDUP_TABLE_SIZE. live arr i"
  proof (intro allI impI, rule ccontr)
    fix i assume i: "i < DEDUP_TABLE_SIZE" "\<not> live arr i"
    from probe_surj [OF assms i(1)] obtain k where k: "k < DEDUP_TABLE_SIZE" "probe h k = i"
      by blast
    with i have "\<not> live arr (probe h k)" by simp
    from least_stop [of "\<lambda>k. live arr (probe h k)", OF this]
    obtain m where m: "m \<le> k" "\<not> live arr (probe h m)" "\<forall>j<m. live arr (probe h j)"
      by blast
    have "m \<le> DEDUP_TABLE_SIZE - 0 \<and> probe h m = probe h m \<and> \<not> live arr (probe h m)
        \<and> (\<forall>j<m. live arr (probe h j))"
      using m k(1) by simp
    then have "insert_probe arr h 0 = Some (probe h m)"
      unfolding insert_probe_Some_iff [OF assms] by (rule exI [of _ m])
    with N show False by simp
  qed
next
  assume A: "\<forall>i < DEDUP_TABLE_SIZE. live arr i"
  show "insert_probe arr h 0 = None"
  proof (cases "insert_probe arr h 0")
    case (Some p)
    then have "\<exists>k. p = probe h k \<and> \<not> live arr p"
      using insert_probe_Some_iff [OF assms, of arr 0 p] by blast
    with A probe_less show ?thesis by blast
  qed simp
qed

lemma insert_probe_Some_less:
  "h < DEDUP_TABLE_SIZE \<Longrightarrow> insert_probe arr h l = Some p \<Longrightarrow> p < DEDUP_TABLE_SIZE"
  by (auto simp add: insert_probe_Some_iff probe_less)

lemma insert_probe_Some_not_live:
  "h < DEDUP_TABLE_SIZE \<Longrightarrow> insert_probe arr h l = Some p \<Longrightarrow> \<not> live arr p"
  by (auto simp add: insert_probe_Some_iff)

lemma crypt_search_loop_None_iff:
  assumes "h < DEDUP_TABLE_SIZE"
  shows "crypt_search_loop arr f h 0 = None \<longleftrightarrow>
     (\<exists>k \<le> DEDUP_TABLE_SIZE. arr (probe h k) = None \<and> (\<forall>j<k. differs arr f (probe h j)))
     \<or> (\<forall>k \<le> DEDUP_TABLE_SIZE. differs arr f (probe h k))"
    (is "?L \<longleftrightarrow> ?A \<or> ?B")
proof
  assume L: ?L
  show "?A \<or> ?B"
  proof (rule disjCI)
    assume "\<not> ?B"
    then obtain k where k: "k \<le> DEDUP_TABLE_SIZE" "\<not> differs arr f (probe h k)" by blast
    from least_stop [of "\<lambda>k. differs arr f (probe h k)", OF k(2)]
    obtain m where m: "m \<le> k" "\<not> differs arr f (probe h m)"
      "\<forall>j<m. differs arr f (probe h j)" by blast
    show ?A
    proof (cases "arr (probe h m)")
      case None
      with m k(1) show ?thesis by (intro exI [of _ m]) simp
    next
      case (Some it)
      with m(2) have "strncmp (fingerprint_crypt it) f 16 = 0" by (simp add: differs_def)
      with Some m k(1) have "m \<le> DEDUP_TABLE_SIZE - 0 \<and> arr (probe h m) = Some it
        \<and> strncmp (fingerprint_crypt it) f 16 = 0 \<and> (\<forall>j<m. differs arr f (probe h j))"
        by simp
      then have "crypt_search_loop arr f h 0 = Some it"
        unfolding crypt_search_loop_Some_iff [OF assms] by (rule exI [of _ m])
      with L show ?thesis by simp
    qed
  qed
next
  assume R: "?A \<or> ?B"
  show ?L
  proof (cases "crypt_search_loop arr f h 0")
    case (Some it)
    then obtain k where k: "k \<le> DEDUP_TABLE_SIZE" "arr (probe h k) = Some it"
      "strncmp (fingerprint_crypt it) f 16 = 0" "\<forall>j<k. differs arr f (probe h j)"
      using crypt_search_loop_Some_iff [OF assms, of arr f 0 it] by auto
    then have nd: "\<not> differs arr f (probe h k)" by (simp add: differs_def)
    from R show ?thesis
    proof
      assume ?A
      then obtain k' where k': "arr (probe h k') = None" "\<forall>j<k'. differs arr f (probe h j)"
        by blast
      have "\<not> differs arr f (probe h k')" using k'(1) by (simp add: differs_def)
      with k(4) have "\<not> k' < k" by blast
      moreover have "\<not> k < k'" using k'(2) nd by blast
      ultimately have "k = k'" by simp
      with k(2) k'(1) show ?thesis by simp
    next
      assume ?B
      with k(1) nd show ?thesis by blast
    qed
  qed simp
qed

section \<open>The string functions and the hash\<close>

lemma strncmp_refl: "strncmp xs xs n = 0"
proof (induction xs arbitrary: n)
  case Nil
  show ?case by (cases n) simp_all
next
  case (Cons c cs)
  then show ?case by (cases n) simp_all
qed

lemma strncmp_numeral:
  "strncmp (c1 # cs) (c2 # ct) (numeral n) =
     (if c1 \<noteq> c2 then (if c1 < c2 then - 1 else 1)
      else if c1 = 0 then 0
      else strncmp cs ct (pred_numeral n))"
  by (simp add: numeral_eq_Suc)

lemma strncpy_numeral:
  "strncpy (c # src) (numeral n) =
     (if c = 0 then replicate (numeral n) 0 else c # strncpy src (pred_numeral n))"
  by (simp add: numeral_eq_Suc)

lemma strncmp_strncpy: "strncmp (strncpy f n) f n = 0"
proof (induction f n rule: strncpy.induct)
  case (3 c src count)
  then show ?case by (cases "c = 0") (simp_all add: strncmp_refl)
qed simp_all

lemma length_strncpy: "length (strncpy f n) = n"
  by (induction f n rule: strncpy.induct) auto

lemma strncpy_no_NUL:
  "n \<le> length f \<Longrightarrow> 0 \<notin> set (take n f) \<Longrightarrow> strncpy f n = take n f"
  by (induction f n rule: strncpy.induct) auto

lemma fold_add_ucast:
  "fold (\<lambda>c hash. hash + char_to_size_t False c) xs a = a + of_nat (sum_list (map unat xs))"
  by (induction xs arbitrary: a) (simp_all add: char_to_size_t_def ac_simps)

lemma hashCrypt_unsigned:
  "hashCrypt False finger = byte_sum finger mod 1024 * 1024"
proof -
  let ?n = "byte_sum finger"
  have m: "unat ((of_nat ?n :: 64 word) mod 1024) = ?n mod 1024"
  proof -
    have "unat ((of_nat ?n :: 64 word) mod 1024) = (?n mod 2 ^ 64) mod 1024"
      by (simp add: unat_mod_distrib unat_of_nat)
    also have "\<dots> = ?n mod 1024"
      by (rule mod_mod_cancel) simp
    finally show ?thesis .
  qed
  have "unat ((of_nat ?n :: 64 word) mod 1024 * 1024) = (?n mod 1024 * 1024) mod 2 ^ 64"
    using m by (simp add: unat_word_ariths)
  also have "\<dots> = ?n mod 1024 * 1024"
  proof (rule mod_less)
    have "?n mod 1024 < 1024" by simp
    then have "?n mod 1024 * 1024 < 1024 * 1024" by simp
    then show "?n mod 1024 * 1024 < 2 ^ 64" by simp
  qed
  finally show ?thesis
    by (simp add: hashCrypt_def fold_add_ucast byte_sum_def)
qed

definition fp1 :: fingerprint where "fp1 = [0,1,0,0,0,0,0,0,0,0,0,0,0,0,0,0]"
definition fp2 :: fingerprint where "fp2 = [0,0,1,0,0,0,0,0,0,0,0,0,0,0,0,0]"

section \<open>The claims about the index\<close>

lemma crypt_search_loop_owner:
  "crypt_search_loop (\<lambda>i. map_option (ino_update g) (arr i)) f h l =
     map_option (ino_update g) (crypt_search_loop arr f h l)"
proof (induction arr f h l rule: crypt_search_loop.induct)
  case (1 arr f h l)
  show ?case
  proof (cases "arr h")
    case None
    then show ?thesis
      by (simp add: crypt_search_loop.simps [of _ f h l])
  next
    case (Some item)
    show ?thesis
    proof (cases "strncmp (fingerprint_crypt item) f 16 = 0")
      case True
      with Some show ?thesis by (simp add: crypt_search_loop.simps [of _ f h l])
    next
      case False
      show ?thesis
      proof (cases "l + 1 > DEDUP_TABLE_SIZE")
        case True
        with Some False show ?thesis by (simp add: crypt_search_loop.simps [of _ f h l])
      next
        case lt: False
        from 1 [OF Some False lt] Some False lt show ?thesis
          by (simp add: crypt_search_loop.simps [of _ f h l])
      qed
    qed
  qed
qed



lemma hashCrypt_fp_a: "hashCrypt cs fp_a = 1024"
  by (simp add: fp_a_def hashCrypt_def char_to_size_t_def)

lemma hashCrypt_fp_b: "hashCrypt cs fp_b = 1024"
  by (simp add: fp_b_def hashCrypt_def char_to_size_t_def)

lemma replicate_16: "replicate 16 x = [x,x,x,x,x,x,x,x,x,x,x,x,x,x,x,x]"
  by (simp add: numeral_eq_Suc)

lemma strncpy_fp_a: "strncpy fp_a 16 = [0,0,0,0,0,0,0,0,0,0,0,0,0,0,0,0]"
  by (simp add: fp_a_def strncpy_numeral replicate_16)

lemma strncmp_zero_fp_a: "strncmp [0,0,0,0,0,0,0,0,0,0,0,0,0,0,0,0] fp_a 16 = 0"
  by (simp add: fp_a_def strncmp_numeral)

lemma strncmp_zero_fp_b: "strncmp [0,0,0,0,0,0,0,0,0,0,0,0,0,0,0,0] fp_b 16 = 0"
  by (simp add: fp_b_def strncmp_numeral)

lemma insert_probe_empty: "insert_probe (\<lambda>i. None) h 0 = Some h"
  by (simp add: insert_probe.simps [of _ h 0])

lemma first_insert:
  "search_then_insert cs fp_a 7 (\<lambda>i. None) =
     [1024 \<mapsto> \<lparr>fingerprint_crypt = [0,0,0,0,0,0,0,0,0,0,0,0,0,0,0,0], ino = 7\<rparr>]"
  by (simp add: search_then_insert_def crypt_search_def crypttable_insert_def hashCrypt_fp_a
      strncpy_fp_a insert_probe_empty crypt_search_loop.simps [of _ fp_a 1024 0])

lemma two_inserts_eq:
  "two_inserts cs = [1024 \<mapsto> \<lparr>fingerprint_crypt = [0,0,0,0,0,0,0,0,0,0,0,0,0,0,0,0], ino = 7\<rparr>]"
  unfolding two_inserts_def first_insert
  by (simp add: search_then_insert_def crypt_search_def
      hashCrypt_fp_b strncmp_zero_fp_b crypt_search_loop.simps [of _ fp_b 1024 0])

text \<open>
  C1. The claim: after two distinct fingerprints were recorded with their owners, a
  search for each returns its own entry, the comparison being over all 16 bytes. On
  the code: \<open>fp_a\<close> and \<open>fp_b\<close> are distinct, \<open>strncmp\<close> stops at their leading NUL
  and reports them equal, so recording \<open>fp_b\<close> for inode 9 after \<open>fp_a\<close> for inode 7
  inserts nothing, and both searches return the one entry of inode 7, whose stored
  fingerprint (cut by \<open>strncpy\<close>) is neither of the two.
\<close>

theorem two_inserts_NUL_prefix_confused:
  "fp_a \<noteq> fp_b \<and> length fp_a = 16 \<and> length fp_b = 16
   \<and> crypt_search True (two_inserts True) fp_a
       = Some \<lparr>fingerprint_crypt = [0,0,0,0,0,0,0,0,0,0,0,0,0,0,0,0], ino = 7\<rparr>
   \<and> crypt_search True (two_inserts True) fp_b
       = Some \<lparr>fingerprint_crypt = [0,0,0,0,0,0,0,0,0,0,0,0,0,0,0,0], ino = 7\<rparr>
   \<and> crypt_search False (two_inserts False) fp_a
       = Some \<lparr>fingerprint_crypt = [0,0,0,0,0,0,0,0,0,0,0,0,0,0,0,0], ino = 7\<rparr>
   \<and> crypt_search False (two_inserts False) fp_b
       = Some \<lparr>fingerprint_crypt = [0,0,0,0,0,0,0,0,0,0,0,0,0,0,0,0], ino = 7\<rparr>
   \<and> strncmp fp_a fp_b 16 = 0"
proof -
  have "fp_a \<noteq> fp_b \<and> length fp_a = 16 \<and> length fp_b = 16 \<and> strncmp fp_a fp_b 16 = 0"
    by (simp add: fp_a_def fp_b_def strncmp_numeral)
  moreover have "crypt_search cs (two_inserts cs) fp_a
       = Some \<lparr>fingerprint_crypt = [0,0,0,0,0,0,0,0,0,0,0,0,0,0,0,0], ino = 7\<rparr>" for cs
    by (simp add: two_inserts_eq crypt_search_def hashCrypt_fp_a strncmp_zero_fp_a
        crypt_search_loop.simps [of _ fp_a 1024 0])
  moreover have "crypt_search cs (two_inserts cs) fp_b
       = Some \<lparr>fingerprint_crypt = [0,0,0,0,0,0,0,0,0,0,0,0,0,0,0,0], ino = 7\<rparr>" for cs
    by (simp add: two_inserts_eq crypt_search_def hashCrypt_fp_b strncmp_zero_fp_b
        crypt_search_loop.simps [of _ fp_b 1024 0])
  ultimately show ?thesis by simp
qed

text \<open>
  C2. The claim: \<open>crypttable_insert\<close> stores an entry whose fingerprint equals the
  argument in all 16 bytes. On the code: the insert of \<open>fp_a\<close> succeeds and the stored
  fingerprint is all zero, because \<open>strncpy\<close> stops at the leading NUL byte.
\<close>

theorem insert_truncates_at_NUL:
  "length fp_a = 16
   \<and> crypttable_insert True fp_a 7 (\<lambda>i. None)
       = (0, [1024 \<mapsto> \<lparr>fingerprint_crypt = [0,0,0,0,0,0,0,0,0,0,0,0,0,0,0,0], ino = 7\<rparr>])
   \<and> crypttable_insert False fp_a 7 (\<lambda>i. None)
       = (0, [1024 \<mapsto> \<lparr>fingerprint_crypt = [0,0,0,0,0,0,0,0,0,0,0,0,0,0,0,0], ino = 7\<rparr>])
   \<and> [0,0,0,0,0,0,0,0,0,0,0,0,0,0,0,0] \<noteq> fp_a"
  by (simp add: crypttable_insert_def hashCrypt_fp_a strncpy_fp_a insert_probe_empty)
     (simp add: fp_a_def)

text \<open>
  C4. The claim: \<open>hashCrypt\<close> is the sum of the 16 bytes modulo 1,048,576. On the
  code: for the fingerprint with bytes 1, 0, ..., 0 the sum is 1 and \<open>hashCrypt\<close> returns
  1024, since \<open>hash % 1024*1024\<close> is \<open>(hash % 1024) * 1024\<close>.
\<close>

theorem hashCrypt_macro_precedence:
  "length fp_one = 16
   \<and> hashCrypt True fp_one = 1024 \<and> hashCrypt False fp_one = 1024
   \<and> byte_sum fp_one mod DEDUP_TABLE_SIZE = 1"
  by (simp add: fp_one_def hashCrypt_def char_to_size_t_def byte_sum_def DEDUP_TABLE_SIZE_def)

text \<open>
  C10. \<open>crypt_search\<close> never looks at \<open>ino\<close>: rewriting the owner fields of the array
  by any function changes the result only in its owner field. In particular a slot
  with owner 0 whose fingerprint matches is returned, and the encrypt path's
  search-then-insert then leaves the array as it is: its check is for the presence of
  the fingerprint, not for a live owner.
\<close>

theorem crypt_search_blind_to_owner:
  "crypt_search cs (\<lambda>i. map_option (ino_update g) (arr i)) f
     = map_option (ino_update g) (crypt_search cs arr f)
   \<and> crypt_search cs (Map.empty(hashCrypt cs f \<mapsto> \<lparr>fingerprint_crypt = f, ino = 0\<rparr>)) f
     = Some \<lparr>fingerprint_crypt = f, ino = 0\<rparr>
   \<and> search_then_insert cs f i (Map.empty(hashCrypt cs f \<mapsto> \<lparr>fingerprint_crypt = f, ino = 0\<rparr>))
     = (Map.empty(hashCrypt cs f \<mapsto> \<lparr>fingerprint_crypt = f, ino = 0\<rparr>))"
proof -
  have s: "crypt_search cs (Map.empty(hashCrypt cs f \<mapsto> \<lparr>fingerprint_crypt = f, ino = 0\<rparr>)) f
     = Some \<lparr>fingerprint_crypt = f, ino = 0\<rparr>"
    by (simp add: crypt_search_def strncmp_refl
        crypt_search_loop.simps [of _ f "hashCrypt cs f" 0])
  then show ?thesis
    by (simp add: crypt_search_def crypt_search_loop_owner search_then_insert_def)
qed

text \<open>
  C3. \<open>crypt_search\<close> is a total function (its loop is defined with the measure
  \<open>DEDUP_TABLE_SIZE - loop\<close>), and it returns not-found exactly when the probe sequence
  reaches a \<open>NULL\<close> slot before any matching one, within \<open>DEDUP_TABLE_SIZE\<close> advances,
  or when all \<open>DEDUP_TABLE_SIZE + 1\<close> slots probed are non-\<open>NULL\<close> and differ from the
  query. An entry it returns was met after at most \<open>DEDUP_TABLE_SIZE\<close> advances.
\<close>

theorem crypt_search_stops:
  "(crypt_search cs arr f = None \<longleftrightarrow>
      (\<exists>k \<le> DEDUP_TABLE_SIZE. arr (probe (hashCrypt cs f) k) = None
          \<and> (\<forall>j<k. differs arr f (probe (hashCrypt cs f) j)))
      \<or> (\<forall>k \<le> DEDUP_TABLE_SIZE. differs arr f (probe (hashCrypt cs f) k)))
   \<and> (crypt_search cs arr f = Some it \<longleftrightarrow>
      (\<exists>k \<le> DEDUP_TABLE_SIZE. arr (probe (hashCrypt cs f) k) = Some it
          \<and> strncmp (fingerprint_crypt it) f 16 = 0
          \<and> (\<forall>j<k. differs arr f (probe (hashCrypt cs f) j))))"
  using crypt_search_loop_None_iff [where h = "hashCrypt cs f" and arr = arr and f = f,
      OF hashCrypt_less]
    crypt_search_loop_Some_iff [where h = "hashCrypt cs f" and arr = arr and f = f
      and l = 0 and it = it, OF hashCrypt_less]
  by (simp add: crypt_search_def)


lemma strncmp_zero_fp_one: "strncmp [0,0,0,0,0,0,0,0,0,0,0,0,0,0,0,0] fp_one 16 \<noteq> 0"
  by (simp add: fp_one_def strncmp_numeral)

theorem crypt_search_stops_witness:
  "crypt_search True (\<lambda>i. None) fp_one = None
   \<and> crypt_search True full_table fp_one = None"
proof -
  have a: "\<forall>k \<le> DEDUP_TABLE_SIZE. differs full_table fp_one (probe (hashCrypt True fp_one) k)"
    by (simp add: differs_def full_table_def strncmp_zero_fp_one)
  have "(\<lambda>i. None) (probe (hashCrypt True fp_one) 0) = (None :: Cryptitem option)
      \<and> (\<forall>j<0. differs (\<lambda>i. None) fp_one (probe (hashCrypt True fp_one) j))"
    by simp
  then have "\<exists>k \<le> DEDUP_TABLE_SIZE. (\<lambda>i. None) (probe (hashCrypt True fp_one) k) = (None :: Cryptitem option)
      \<and> (\<forall>j<k. differs (\<lambda>i. None) fp_one (probe (hashCrypt True fp_one) j))"
    by (intro exI [of _ 0]) simp
  then have b: "crypt_search True (\<lambda>i. None) fp_one = None"
    using crypt_search_stops [of True "\<lambda>i. None" fp_one] by blast
  have c: "crypt_search True full_table fp_one = None"
    using a crypt_search_stops [of True full_table fp_one] by blast
  from b c show ?thesis by blast
qed

section \<open>The whole-table loops in closed form\<close>

lemma bootstrap_loop_apply:
  "bootstrap_loop g h arr j =
     (if h \<le> j \<and> j < DEDUP_TABLE_SIZE \<and> arr j = None
      then Some \<lparr>fingerprint_crypt = g j, ino = 0\<rparr> else arr j)"
proof (induction g h arr rule: bootstrap_loop.induct)
  case (1 g h arr)
  show ?case
  proof (cases "h < DEDUP_TABLE_SIZE")
    case True
    from 1 [OF True] True show ?thesis
      by (subst bootstrap_loop.simps) (auto simp add: not_less_eq_eq)
  next
    case False
    then show ?thesis by (subst bootstrap_loop.simps) simp
  qed
qed

lemma read_loop_past_end:
  "flen fl \<le> pos \<Longrightarrow> read_loop fl h pos arr = arr"
proof (induction fl h pos arr rule: read_loop.induct)
  case (1 fl h pos arr)
  show ?case
  proof (cases "h < DEDUP_TABLE_SIZE")
    case True
    with 1 show ?thesis by (subst read_loop.simps) simp
  next
    case False
    then show ?thesis by (subst read_loop.simps) simp
  qed
qed

lemma read_loop_apply:
  "pos = h \<Longrightarrow> \<forall>i < DEDUP_TABLE_SIZE. arr i \<noteq> None \<Longrightarrow>
   read_loop fl h pos arr j =
     (if h \<le> j \<and> j < DEDUP_TABLE_SIZE \<and> j < flen fl then Some (frec fl j) else arr j)"
proof (induction fl h pos arr rule: read_loop.induct)
  case (1 fl h pos arr)
  show ?case
  proof (cases "h < DEDUP_TABLE_SIZE")
    case False
    then show ?thesis by (subst read_loop.simps) auto
  next
    case True
    show ?thesis
    proof (cases "pos < flen fl")
      case False
      then have "read_loop fl h pos arr = arr"
        by (simp add: read_loop_past_end)
      with False 1(3) show ?thesis by auto
    next
      case lt: True
      have c: "arr h \<noteq> None \<and> pos < flen fl" using True lt 1(4) by simp
      have n: "\<forall>i < DEDUP_TABLE_SIZE. (arr(h \<mapsto> frec fl pos)) i \<noteq> None"
        using 1(4) by simp
      have p: "pos + 1 = h + 1" using 1(3) by simp
      have step: "read_loop fl h pos arr = read_loop fl (h + 1) (pos + 1) (arr(h \<mapsto> frec fl pos))"
        by (subst read_loop.simps) (simp add: True c)
      have IH: "read_loop fl (h + 1) (pos + 1) (arr(h \<mapsto> frec fl pos)) j =
         (if h + 1 \<le> j \<and> j < DEDUP_TABLE_SIZE \<and> j < flen fl then Some (frec fl j)
          else (arr(h \<mapsto> frec fl pos)) j)"
        by (rule 1(1) [OF True c p n])
      show ?thesis
        unfolding step IH using 1(3) lt True by (auto simp add: not_less_eq_eq)
    qed
  qed
qed

lemma write_loop_flen:
  "pos = h \<Longrightarrow> \<forall>i < DEDUP_TABLE_SIZE. arr i \<noteq> None \<Longrightarrow>
   flen (write_loop arr h pos fl) =
     (if h < DEDUP_TABLE_SIZE then max (flen fl) DEDUP_TABLE_SIZE else flen fl)"
proof (induction arr h pos fl rule: write_loop.induct)
  case (1 arr h pos fl)
  show ?case
  proof (cases "h < DEDUP_TABLE_SIZE")
    case False
    then show ?thesis by (subst write_loop.simps) simp
  next
    case True
    then obtain item where item: "arr h = Some item" using 1(4) by auto
    from 1(2) [OF True item _ 1(4)] 1(3) True item show ?thesis
      by (subst write_loop.simps) (auto simp add: max_def)
  qed
qed

lemma write_loop_frec:
  "pos = h \<Longrightarrow> \<forall>i < DEDUP_TABLE_SIZE. arr i \<noteq> None \<Longrightarrow>
   frec (write_loop arr h pos fl) j =
     (if h \<le> j \<and> j < DEDUP_TABLE_SIZE then the (arr j) else frec fl j)"
proof (induction arr h pos fl rule: write_loop.induct)
  case (1 arr h pos fl)
  show ?case
  proof (cases "h < DEDUP_TABLE_SIZE")
    case False
    then show ?thesis by (subst write_loop.simps) auto
  next
    case True
    then obtain item where item: "arr h = Some item" using 1(4) by auto
    from 1(2) [OF True item _ 1(4)] 1(3) True item show ?thesis
      by (subst write_loop.simps) (auto simp add: not_less_eq_eq)
  qed
qed

lemma reload_apply:
  "reload e s j =
     (if j < DEDUP_TABLE_SIZE
      then (if j < flen (citable s) then Some (frec (citable s) j)
            else (case cryptArray s j of
                    None \<Rightarrow> Some \<lparr>fingerprint_crypt = kmalloc_garbage e j, ino = 0\<rparr>
                  | Some item \<Rightarrow> Some item))
      else cryptArray s j)"
proof -
  have "\<forall>i < DEDUP_TABLE_SIZE. bootstrap_loop (kmalloc_garbage e) 0 (cryptArray s) i \<noteq> None"
    by (simp add: bootstrap_loop_apply)
  then show ?thesis
    unfolding reload_def
    by (subst read_loop_apply) (auto simp add: bootstrap_loop_apply split: option.splits)
qed

lemma reload_no_NULL: "j < DEDUP_TABLE_SIZE \<Longrightarrow> reload e s j \<noteq> None"
  by (simp add: reload_apply split: option.splits)

lemma reload_in_sync:
  "in_sync (cryptArray s) (citable s) \<Longrightarrow> reload e s = cryptArray s"
  by (rule ext) (auto simp add: reload_apply in_sync_def)

lemma write_loop_in_sync:
  assumes "\<forall>i < DEDUP_TABLE_SIZE. arr i \<noteq> None"
  shows "in_sync arr (write_loop arr 0 0 fl)"
  using assms DEDUP_pos
  by (auto simp add: in_sync_def write_loop_flen write_loop_frec)

lemma write_loop_idem:
  assumes "in_sync arr fl"
  shows "write_loop arr 0 0 fl = fl"
proof -
  have n: "\<forall>i < DEDUP_TABLE_SIZE. arr i \<noteq> None" using assms by (simp add: in_sync_def)
  have "flen (write_loop arr 0 0 fl) = flen fl"
    using assms DEDUP_pos by (simp add: write_loop_flen [OF _ n] in_sync_def)
  moreover have "frec (write_loop arr 0 0 fl) = frec fl"
    using assms by (auto simp add: write_loop_frec [OF _ n] in_sync_def fun_eq_iff)
  ultimately show ?thesis by simp
qed

section \<open>Search after insert\<close>

lemma insert_then_search:
  assumes N: "crypt_search cs arr d = None"
    and P: "insert_probe arr (hashCrypt cs d) 0 = Some p"
  shows "crypt_search cs (arr(p \<mapsto> \<lparr>fingerprint_crypt = strncpy d 16, ino = i\<rparr>)) d
           = Some \<lparr>fingerprint_crypt = strncpy d 16, ino = i\<rparr>"
proof -
  let ?h = "hashCrypt cs d"
  let ?new = "\<lparr>fingerprint_crypt = strncpy d 16, ino = i\<rparr>"
  let ?arr' = "arr(p \<mapsto> ?new)"
  have h: "?h < DEDUP_TABLE_SIZE" by (rule hashCrypt_less)
  from P obtain k where k: "k \<le> DEDUP_TABLE_SIZE" "p = probe ?h k" "\<not> live arr p"
      "\<forall>j<k. live arr (probe ?h j)"
    unfolding insert_probe_Some_iff [OF h] by auto
  have before: "differs arr d (probe ?h j) \<and> probe ?h j \<noteq> p" if "j < k" for j
  proof -
    have lv: "live arr (probe ?h j)" using k(4) that by blast
    with k(3) have ne: "probe ?h j \<noteq> p" by auto
    from N have "(\<exists>k' \<le> DEDUP_TABLE_SIZE. arr (probe ?h k') = None
          \<and> (\<forall>j<k'. differs arr d (probe ?h j)))
        \<or> (\<forall>k' \<le> DEDUP_TABLE_SIZE. differs arr d (probe ?h k'))"
      unfolding crypt_search_def crypt_search_loop_None_iff [OF h] .
    then have "differs arr d (probe ?h j)"
    proof
      assume "\<exists>k' \<le> DEDUP_TABLE_SIZE. arr (probe ?h k') = None
          \<and> (\<forall>j<k'. differs arr d (probe ?h j))"
      then obtain k' where k': "arr (probe ?h k') = None" "\<forall>j<k'. differs arr d (probe ?h j)"
        by blast
      have "\<not> live arr (probe ?h k')" using k'(1) by (simp add: live_def)
      with k(4) have "\<not> k' < k" by blast
      with that have "j < k'" by simp
      with k'(2) show ?thesis by blast
    next
      assume "\<forall>k' \<le> DEDUP_TABLE_SIZE. differs arr d (probe ?h k')"
      moreover have "j \<le> DEDUP_TABLE_SIZE" using that k(1) by simp
      ultimately show ?thesis by blast
    qed
    with ne show ?thesis by simp
  qed
  have "\<forall>j<k. differs ?arr' d (probe ?h j)"
    using before by (simp add: differs_def)
  moreover have "?arr' (probe ?h k) = Some ?new" using k(2) by simp
  moreover have "strncmp (fingerprint_crypt ?new) d 16 = 0" by (simp add: strncmp_strncpy)
  ultimately have "k \<le> DEDUP_TABLE_SIZE - 0 \<and> ?arr' (probe ?h k) = Some ?new
      \<and> strncmp (fingerprint_crypt ?new) d 16 = 0 \<and> (\<forall>j<k. differs ?arr' d (probe ?h j))"
    using k(1) by simp
  then have "crypt_search_loop ?arr' d ?h 0 = Some ?new"
    unfolding crypt_search_loop_Some_iff [OF h] by (rule exI [of _ k])
  then show ?thesis by (simp add: crypt_search_def)
qed

lemma search_then_insert_cases:
  obtains (found) "crypt_search cs arr d \<noteq> None" "search_then_insert cs d i arr = arr"
  | (full) "crypt_search cs arr d = None" "\<forall>j < DEDUP_TABLE_SIZE. live arr j"
      "search_then_insert cs d i arr = arr"
  | (inserted) p where "crypt_search cs arr d = None"
      "insert_probe arr (hashCrypt cs d) 0 = Some p" "p < DEDUP_TABLE_SIZE" "\<not> live arr p"
      "search_then_insert cs d i arr = arr(p \<mapsto> \<lparr>fingerprint_crypt = strncpy d 16, ino = i\<rparr>)"
proof (cases "crypt_search cs arr d")
  case (Some it)
  then show ?thesis using found by (simp add: search_then_insert_def)
next
  case None
  show ?thesis
  proof (cases "insert_probe arr (hashCrypt cs d) 0")
    case n: None
    then have "\<forall>j < DEDUP_TABLE_SIZE. live arr j"
      using insert_probe_None_iff [OF hashCrypt_less] by blast
    with None n show ?thesis using full
      by (simp add: search_then_insert_def crypttable_insert_def)
  next
    case (Some p)
    with None show ?thesis using inserted [of p]
      insert_probe_Some_less [OF hashCrypt_less Some]
      insert_probe_Some_not_live [OF hashCrypt_less Some]
      by (simp add: search_then_insert_def crypttable_insert_def)
  qed
qed

lemma search_then_insert_idem:
  "search_then_insert cs d i (search_then_insert cs d i arr) = search_then_insert cs d i arr"
proof (cases rule: search_then_insert_cases [of cs arr d i])
  case found
  then show ?thesis by simp
next
  case full
  then show ?thesis by simp
next
  case (inserted p)
  from insert_then_search [OF inserted(1,2), of i] inserted(5)
  show ?thesis by (simp add: search_then_insert_def)
qed

lemma search_then_insert_no_NULL:
  assumes "\<forall>j < DEDUP_TABLE_SIZE. arr j \<noteq> None"
  shows "\<forall>j < DEDUP_TABLE_SIZE. search_then_insert cs d i arr j \<noteq> None"
  by (cases rule: search_then_insert_cases [of cs arr d i]) (use assms in auto)

lemma search_then_insert_outside:
  "\<not> j < DEDUP_TABLE_SIZE \<Longrightarrow> search_then_insert cs d i arr j = arr j"
  by (cases rule: search_then_insert_cases [of cs arr d i]) auto

lemma search_then_insert_unfound_full:
  assumes "crypt_search cs (search_then_insert cs d i arr) d = None"
  shows "(\<forall>j < DEDUP_TABLE_SIZE. live arr j) \<and> search_then_insert cs d i arr = arr"
proof (cases rule: search_then_insert_cases [of cs arr d i])
  case found
  with assms show ?thesis by simp
next
  case full
  then show ?thesis by simp
next
  case (inserted p)
  from insert_then_search [OF inserted(1,2), of i] inserted(5) assms
  show ?thesis by simp
qed

section \<open>The encrypt post-step\<close>

lemma encrypt_post_step_in_sync:
  "in_sync (cryptArray (encrypt_post_step e inode dp s)) (citable (encrypt_post_step e inode dp s))"
  by (simp add: encrypt_post_step_def Let_def write_loop_in_sync search_then_insert_no_NULL
      reload_no_NULL)

lemma encrypt_post_step_pages: "pages (encrypt_post_step e inode dp s) = pages s"
  by (simp add: encrypt_post_step_def Let_def)

lemma encrypt_post_step_twice:
  "encrypt_post_step e inode dp (encrypt_post_step e inode dp s) =
     (encrypt_post_step e inode dp s)
       \<lparr>calls := calls (encrypt_post_step e inode dp s) @ [Filp_open, Filp_close]\<rparr>"
proof -
  let ?s1 = "encrypt_post_step e inode dp s"
  let ?d = "hash_page_data e (page_data (pages s dp))"
  have sync: "in_sync (cryptArray ?s1) (citable ?s1)" by (rule encrypt_post_step_in_sync)
  have r: "reload e ?s1 = cryptArray ?s1" by (rule reload_in_sync [OF sync])
  have a: "cryptArray ?s1 = search_then_insert (char_signed e) ?d (i_ino inode) (reload e s)"
    by (simp add: encrypt_post_step_def Let_def)
  have i: "search_then_insert (char_signed e) ?d (i_ino inode) (cryptArray ?s1) = cryptArray ?s1"
    unfolding a by (rule search_then_insert_idem)
  have w: "write_loop (cryptArray ?s1) 0 0 (citable ?s1) = citable ?s1"
    by (rule write_loop_idem [OF sync])
  show ?thesis
    by (subst encrypt_post_step_def) (simp add: Let_def r encrypt_post_step_pages i w)
qed

section \<open>One block\<close>

lemma crypt_block_invalid:
  assumes "len = 0 \<or> len mod FSCRYPT_CONTENTS_ALIGNMENT e \<noteq> 0"
  shows "fscrypt_crypt_block e inode rw lblk src dst len offs s =
    (EINVAL, if rw = FS_DECRYPT
       then s\<lparr>calls := calls s @ [Read_finger_blk_table,
              Finger_crypt_search (hash_page_data e (page_data (pages s src)))]\<rparr>
       else s)"
  using assms by (auto simp add: fscrypt_crypt_block_def Let_def)

lemma crypt_block_decrypt_frame:
  "citable (snd (fscrypt_crypt_block e inode FS_DECRYPT lblk src dst len offs s)) = citable s
   \<and> cryptArray (snd (fscrypt_crypt_block e inode FS_DECRYPT lblk src dst len offs s))
       = cryptArray s"
  by (simp add: fscrypt_crypt_block_def Let_def)

lemma crypt_block_decrypt_calls:
  "calls (snd (fscrypt_crypt_block e inode FS_DECRYPT lblk src dst len offs s)) =
     calls s @ [Read_finger_blk_table,
                Finger_crypt_search (hash_page_data e (page_data (pages s src)))]
       @ (if len \<noteq> 0 \<and> len mod FSCRYPT_CONTENTS_ALIGNMENT e = 0 \<and> skcipher_request_alloc e
          then [Skcipher FS_DECRYPT (ci_tfm (i_crypt_info inode))
                  (fscrypt_generate_iv e
                     (case finger_crypt_search e (hash_page_data e (page_data (pages s src))) of
                        Some item \<Rightarrow> lblk_num item | None \<Rightarrow> lblk)
                     (i_crypt_info inode))]
          else [])"
  by (simp add: fscrypt_crypt_block_def Let_def)

lemma crypt_block_encrypt_success:
  assumes "fscrypt_crypt_block e inode FS_ENCRYPT lblk src dst len offs s = (Success, s')"
  shows "\<exists>s2. s' = encrypt_post_step e inode dst s2 \<and> citable s2 = citable s"
  using assms
  by (auto simp add: fscrypt_crypt_block_def Let_def split: if_splits)

text \<open>
  C5. On every decrypt of one block the tables of the logical-block index are read and
  searched with the digest of the source page, before anything else. When the checks
  of \<open>len\<close> pass and the request is allocated, the cipher is called with the IV that
  \<open>fscrypt_generate_iv\<close> derives from the block number of the entry found, or from
  the caller's block number when nothing is found.
\<close>

theorem decrypt_block_recovers_lblk:
  "take 2 (drop (length (calls s))
       (calls (snd (fscrypt_crypt_block e inode FS_DECRYPT lblk src dst len offs s))))
     = [Read_finger_blk_table, Finger_crypt_search (hash_page_data e (page_data (pages s src)))]
   \<and> (len \<noteq> 0 \<and> len mod FSCRYPT_CONTENTS_ALIGNMENT e = 0 \<and> skcipher_request_alloc e \<longrightarrow>
        (\<forall>item. finger_crypt_search e (hash_page_data e (page_data (pages s src))) = Some item \<longrightarrow>
           drop (length (calls s) + 2)
             (calls (snd (fscrypt_crypt_block e inode FS_DECRYPT lblk src dst len offs s)))
           = [Skcipher FS_DECRYPT (ci_tfm (i_crypt_info inode))
                (fscrypt_generate_iv e (lblk_num item) (i_crypt_info inode))])
        \<and> (finger_crypt_search e (hash_page_data e (page_data (pages s src))) = None \<longrightarrow>
           drop (length (calls s) + 2)
             (calls (snd (fscrypt_crypt_block e inode FS_DECRYPT lblk src dst len offs s)))
           = [Skcipher FS_DECRYPT (ci_tfm (i_crypt_info inode))
                (fscrypt_generate_iv e lblk (i_crypt_info inode))]))"
  by (simp add: crypt_block_decrypt_calls)

lemma hash_page7: "hash_page_data env0 (page_data (pages s0 n)) = fp_one"
  by (simp add: env0_def s0_def page7_def fp_one_def)

lemma env0_simps:
  "FSCRYPT_CONTENTS_ALIGNMENT env0 = 16" "skcipher_request_alloc env0"
  "finger_crypt_search env0 fp_one = Some \<lparr>lbr_fingerprint_crypt = fp_one, lblk_num = 5\<rparr>"
  "char_signed env0" "kmalloc_garbage env0 i = [255,255,255,255,255,255,255,255,
                                      255,255,255,255,255,255,255,255]"
  by (simp_all add: env0_def)

theorem decrypt_block_recovers_lblk_witness:
  "finger_crypt_search env0 (hash_page_data env0 (page_data (pages s0 0)))
     = Some \<lparr>lbr_fingerprint_crypt = fp_one, lblk_num = 5\<rparr>
   \<and> calls (snd (fscrypt_crypt_block env0 inode7 FS_DECRYPT 9 0 0 4096 0 s0))
     = [Read_finger_blk_table, Finger_crypt_search fp_one,
        Skcipher FS_DECRYPT 7 (fscrypt_generate_iv env0 5 ci7)]"
proof -
  have f: "finger_crypt_search env0 (hash_page_data env0 (page_data (pages s0 0)))
     = Some \<lparr>lbr_fingerprint_crypt = fp_one, lblk_num = 5\<rparr>"
    by (simp add: hash_page7 env0_simps)
  have v: "(4096 :: 32 word) \<noteq> 0 \<and> (4096 :: 32 word) mod FSCRYPT_CONTENTS_ALIGNMENT env0 = 0
      \<and> skcipher_request_alloc env0"
    by (simp add: env0_simps)
  have c0: "calls s0 = []" by (simp add: s0_def)
  have i: "i_crypt_info inode7 = ci7" "ci_tfm ci7 = 7"
    by (simp_all add: inode7_def ci7_def)
  let ?X = "calls (snd (fscrypt_crypt_block env0 inode7 FS_DECRYPT 9 0 0 4096 0 s0))"
  note T = decrypt_block_recovers_lblk [of s0 env0 inode7 9 0 0 4096 0]
  from T have "take 2 (drop (length (calls s0)) ?X)
      = [Read_finger_blk_table, Finger_crypt_search (hash_page_data env0 (page_data (pages s0 0)))]"
    by (rule conjunct1)
  then have a: "take 2 ?X = [Read_finger_blk_table, Finger_crypt_search fp_one]"
    by (simp add: c0 hash_page7)
  from T v f have "drop (length (calls s0) + 2) ?X
      = [Skcipher FS_DECRYPT (ci_tfm (i_crypt_info inode7))
           (fscrypt_generate_iv env0
              (lblk_num \<lparr>lbr_fingerprint_crypt = fp_one, lblk_num = 5\<rparr>) (i_crypt_info inode7))]"
    by blast
  then have b: "drop 2 ?X = [Skcipher FS_DECRYPT 7 (fscrypt_generate_iv env0 5 ci7)]"
    by (simp add: c0 i numeral_2_eq_2)
  have "?X = take 2 ?X @ drop 2 ?X" by simp
  then have "?X = [Read_finger_blk_table, Finger_crypt_search fp_one]
       @ [Skcipher FS_DECRYPT 7 (fscrypt_generate_iv env0 5 ci7)]"
    unfolding a b .
  with f show ?thesis by simp
qed

section \<open>The loop over the blocks of a page\<close>

lemma unat_2p32: "b < 32 \<Longrightarrow> unat (push_bit b 1 :: 32 word) = 2 ^ b"
proof -
  assume b: "b < 32"
  have "unat (push_bit b 1 :: 32 word) = take_bit LENGTH(32) (push_bit b (unat (1 :: 32 word)))"
    by (rule unsigned_push_bit_eq)
  also have "\<dots> = (2 ^ b) mod 2 ^ 32"
    by (simp add: push_bit_of_1 take_bit_eq_mod)
  also have "\<dots> = (2 ^ b :: nat)"
  proof (rule mod_less)
    show "(2 :: nat) ^ b < 2 ^ 32" using b by (rule power_strict_increasing) simp
  qed
  finally show ?thesis .
qed

lemma aligned_dvd:
  assumes "IS_ALIGNED (len OR offs) (push_bit b 1)"
  shows "2 ^ b dvd unat len"
proof -
  from assms have "(len OR offs) AND mask b = 0"
    by (simp add: IS_ALIGNED_def push_bit_of_1 mask_eq_decr_exp)
  then have "len AND mask b = 0"
    by (simp add: word_ao_dist or_eq_0_iff)
  then show ?thesis by (simp add: and_mask_dvd_nat)
qed


lemma decrypt_blocks_done:
  "\<not> i < bound \<Longrightarrow> decrypt_blocks e inode pg bs bound i lblk s = Some (Success, s)"
  by (subst decrypt_blocks.simps) simp

lemma decrypt_blocks_step:
  "i < bound \<Longrightarrow>
   decrypt_blocks e inode pg bs bound i lblk s =
     (if fst (fscrypt_crypt_block e inode FS_DECRYPT lblk pg pg bs i s) \<noteq> Success
      then Some (fscrypt_crypt_block e inode FS_DECRYPT lblk pg pg bs i s)
      else decrypt_blocks e inode pg bs bound (i + bs) (lblk + 1)
             (snd (fscrypt_crypt_block e inode FS_DECRYPT lblk pg pg bs i s)))"
  by (subst decrypt_blocks.simps) (simp add: Let_def)

lemma decrypt_blocks_returns:
  assumes "bs \<noteq> 0" "unat i + n * unat bs = unat bound"
  shows "decrypt_blocks e inode pg bs bound i lblk s \<noteq> None"
  using assms(2)
proof (induction n arbitrary: i lblk s)
  case 0
  then have "\<not> i < bound" by (simp add: word_less_nat_alt)
  then show ?case by (simp add: decrypt_blocks_done)
next
  case (Suc n)
  have pos: "0 < unat bs" using assms(1) by (simp add: unat_gt_0)
  have le: "unat i + unat bs \<le> unat bound" using Suc.prems by simp
  then have lt: "i < bound" using pos by (simp add: word_less_nat_alt)
  have "unat bound < 2 ^ LENGTH(32)" by (rule unsigned_less)
  with le have "unat i + unat bs < 2 ^ LENGTH(32)" by simp
  then have "unat (i + bs) = unat i + unat bs" by (simp only: unat_add_lem)
  with Suc.prems have "unat (i + bs) + n * unat bs = unat bound" by simp
  from Suc.IH [OF this] lt show ?case
    by (simp add: decrypt_blocks_step)
qed

lemma quiet_append:
  "\<forall>ev \<in> set xs. \<not> foreign_key t ev \<Longrightarrow> \<forall>ev \<in> set ys. \<not> foreign_key t ev \<Longrightarrow>
   \<forall>ev \<in> set (xs @ ys). \<not> foreign_key t ev"
  by auto

lemma crypt_block_decrypt_quiet:
  "\<exists>evs. calls (snd (fscrypt_crypt_block e inode FS_DECRYPT lblk src dst len offs s))
            = calls s @ evs
         \<and> (\<forall>ev \<in> set evs. \<not> foreign_key (ci_tfm (i_crypt_info inode)) ev)"
  by (simp add: crypt_block_decrypt_calls)

lemma decrypt_blocks_inv:
  assumes "decrypt_blocks e inode pg bs bound i lblk s = Some y"
  shows "citable (snd y) = citable s \<and> cryptArray (snd y) = cryptArray s
   \<and> (\<exists>evs. calls (snd y) = calls s @ evs
         \<and> (\<forall>ev \<in> set evs. \<not> foreign_key (ci_tfm (i_crypt_info inode)) ev))"
proof (rule decrypt_blocks.raw_induct [where P = "\<lambda>e inode pg bs bound i lblk s y.
    citable (snd y) = citable s \<and> cryptArray (snd y) = cryptArray s
    \<and> (\<exists>evs. calls (snd y) = calls s @ evs
         \<and> (\<forall>ev \<in> set evs. \<not> foreign_key (ci_tfm (i_crypt_info inode)) ev))", OF _ assms])
  fix rec :: "env \<Rightarrow> inode \<Rightarrow> nat \<Rightarrow> 32 word \<Rightarrow> 32 word \<Rightarrow> 32 word \<Rightarrow> 64 word \<Rightarrow> kstate
     \<Rightarrow> (retval \<times> kstate) option"
  fix e inode pg bs bound i lblk s y
  assume IH: "\<And>e inode pg bs bound i lblk s y.
      rec e inode pg bs bound i lblk s = Some y \<Longrightarrow>
      citable (snd y) = citable s \<and> cryptArray (snd y) = cryptArray s
      \<and> (\<exists>evs. calls (snd y) = calls s @ evs
         \<and> (\<forall>ev \<in> set evs. \<not> foreign_key (ci_tfm (i_crypt_info inode)) ev))"
  assume eq: "(if i < bound
      then let r = fscrypt_crypt_block e inode FS_DECRYPT lblk pg pg bs i s
           in if fst r \<noteq> Success then Some r
              else rec e inode pg bs bound (i + bs) (lblk + 1) (snd r)
      else Some (Success, s)) = Some y"
  let ?r = "fscrypt_crypt_block e inode FS_DECRYPT lblk pg pg bs i s"
  let ?t = "ci_tfm (i_crypt_info inode)"
  from crypt_block_decrypt_quiet [of e inode lblk pg pg bs i s]
  obtain evs1 where evs1: "calls (snd ?r) = calls s @ evs1"
      "\<forall>ev \<in> set evs1. \<not> foreign_key ?t ev" by blast
  note fr = crypt_block_decrypt_frame [of e inode lblk pg pg bs i s]
  show "citable (snd y) = citable s \<and> cryptArray (snd y) = cryptArray s
      \<and> (\<exists>evs. calls (snd y) = calls s @ evs
         \<and> (\<forall>ev \<in> set evs. \<not> foreign_key ?t ev))"
  proof (cases "i < bound")
    case False
    with eq have "y = (Success, s)" by simp
    then show ?thesis by simp
  next
    case True
    show ?thesis
    proof (cases "fst ?r \<noteq> Success")
      case stop: True
      with eq True have "y = ?r" by (simp add: Let_def)
      with fr evs1 show ?thesis by auto
    next
      case False
      with eq True have "rec e inode pg bs bound (i + bs) (lblk + 1) (snd ?r) = Some y"
        by (simp add: Let_def)
      from IH [OF this] obtain evs2 where
        y: "citable (snd y) = citable (snd ?r)" "cryptArray (snd y) = cryptArray (snd ?r)"
           "calls (snd y) = calls (snd ?r) @ evs2"
           "\<forall>ev \<in> set evs2. \<not> foreign_key ?t ev"
        by blast
      have "calls (snd y) = calls s @ (evs1 @ evs2)" using y(3) evs1(1) by simp
      moreover have "\<forall>ev \<in> set (evs1 @ evs2). \<not> foreign_key ?t ev"
        using evs1(2) y(4) by (rule quiet_append)
      ultimately have "\<exists>evs. calls (snd y) = calls s @ evs
         \<and> (\<forall>ev \<in> set evs. \<not> foreign_key ?t ev)" by blast
      with y(1,2) fr show ?thesis by simp
    qed
  qed
qed

section \<open>The page-level decrypt\<close>

lemma reload_calls [simp]: "reload e (s\<lparr>calls := c\<rparr>) = reload e s"
  by (simp add: reload_def)

lemma pagecache_invalid:
  assumes "\<not> PageLocked (pages s pg) \<or> len = 0
     \<or> \<not> IS_ALIGNED (len OR offs) (push_bit (i_blkbits (page_host (pages s pg))) 1)"
  shows "fscrypt_decrypt_pagecache_blocks e pg len offs s
           = Some (EINVAL, s\<lparr>calls := calls s @ [Filp_open]\<rparr>)"
  using assms by (auto simp add: fscrypt_decrypt_pagecache_blocks_def Let_def)

lemma pagecache_valid:
  assumes "PageLocked (pages s pg)" "len \<noteq> 0"
    "IS_ALIGNED (len OR offs) (push_bit (i_blkbits (page_host (pages s pg))) 1)"
  shows "fscrypt_decrypt_pagecache_blocks e pg len offs s =
     decrypt_blocks e (owner_inode e (page_host (pages s pg)) (looked_up e pg s)) pg
       (push_bit (i_blkbits (page_host (pages s pg))) 1) (offs + len) offs
       (push_bit (PAGE_SHIFT e - i_blkbits (page_host (pages s pg))) (page_index (pages s pg))
          + ucast (drop_bit (i_blkbits (page_host (pages s pg))) offs))
       (s\<lparr>cryptArray := reload e s,
          calls := calls s @ [Filp_open]
             @ (case looked_up e pg s of Some item \<Rightarrow> [F2fs_iget (ino item)] | None \<Rightarrow> [])\<rparr>)"
  using assms by (simp add: fscrypt_decrypt_pagecache_blocks_def Let_def looked_up_def)

lemma pagecache_returns:
  assumes "i_blkbits (page_host (pages s pg)) < 32"
  shows "fscrypt_decrypt_pagecache_blocks e pg len offs s \<noteq> None"
proof (cases "PageLocked (pages s pg) \<and> len \<noteq> 0
     \<and> IS_ALIGNED (len OR offs) (push_bit (i_blkbits (page_host (pages s pg))) 1)")
  case False
  then show ?thesis by (subst pagecache_invalid) auto
next
  case True
  let ?b = "i_blkbits (page_host (pages s pg))"
  let ?bs = "push_bit ?b 1 :: 32 word"
  have ubs: "unat ?bs = 2 ^ ?b" using assms by (rule unat_2p32)
  then have nz: "?bs \<noteq> 0" by (metis power_not_zero unat_0_iff zero_neq_numeral)
  from True have "2 ^ ?b dvd unat len" by (intro aligned_dvd [of len offs]) simp
  then obtain n where n: "unat len = n * 2 ^ ?b" by (auto simp add: dvd_def mult.commute)
  have "decrypt_blocks e inode' pg ?bs (offs + len) offs lblk' s' \<noteq> None" for inode' lblk' s'
  proof (cases "unat offs + unat len < 2 ^ LENGTH(32)")
    case wrap: False
    have "unat (offs + len) = unat offs + unat len - 2 ^ LENGTH(32)"
      using wrap by (simp add: unat_plus_if')
    moreover have "unat len < 2 ^ LENGTH(32)" by (rule unsigned_less)
    ultimately have "\<not> offs < offs + len" using wrap by (simp add: word_less_nat_alt)
    then show ?thesis by (simp add: decrypt_blocks_done)
  next
    case True
    then have "unat (offs + len) = unat offs + unat len" by (simp only: unat_add_lem)
    with n ubs have "unat offs + n * unat ?bs = unat (offs + len)" by simp
    from decrypt_blocks_returns [OF nz this] show ?thesis .
  qed
  with True show ?thesis by (simp add: pagecache_valid)
qed

section \<open>Recording an owner\<close>

lemma encrypt_post_step_records:
  assumes "crypt_search (char_signed e) (reload e s) (hash_page_data e (page_data (pages s dp))) = None"
    and "\<not> (\<forall>j < DEDUP_TABLE_SIZE. live (reload e s) j)"
  shows "crypt_search (char_signed e) (cryptArray (encrypt_post_step e inode dp s))
           (hash_page_data e (page_data (pages s dp)))
         = Some \<lparr>fingerprint_crypt = strncpy (hash_page_data e (page_data (pages s dp))) 16,
                 ino = i_ino inode\<rparr>"
proof -
  let ?d = "hash_page_data e (page_data (pages s dp))"
  have a: "cryptArray (encrypt_post_step e inode dp s)
      = search_then_insert (char_signed e) ?d (i_ino inode) (reload e s)"
    by (simp add: encrypt_post_step_def Let_def)
  show ?thesis
  proof (cases rule: search_then_insert_cases [of "char_signed e" "reload e s" ?d "i_ino inode"])
    case found
    with assms(1) show ?thesis by simp
  next
    case full
    with assms(2) show ?thesis by simp
  next
    case (inserted p)
    from insert_then_search [OF inserted(1,2), of "i_ino inode"] inserted(5) a
    show ?thesis by simp
  qed
qed

lemma encrypt_post_step_unfound_full:
  assumes "crypt_search (char_signed e) (cryptArray (encrypt_post_step e inode dp s))
             (hash_page_data e (page_data (pages s dp))) = None"
  shows "\<forall>j < DEDUP_TABLE_SIZE. live (cryptArray (encrypt_post_step e inode dp s)) j"
proof -
  let ?d = "hash_page_data e (page_data (pages s dp))"
  have a: "cryptArray (encrypt_post_step e inode dp s)
      = search_then_insert (char_signed e) ?d (i_ino inode) (reload e s)"
    by (simp add: encrypt_post_step_def Let_def)
  from search_then_insert_unfound_full [of "char_signed e" ?d "i_ino inode" "reload e s"]
    assms a show ?thesis by simp
qed

subsection \<open>The first encrypt from the initial state\<close>

lemma reload_s0:
  "reload env0 s0 j =
     (if j < DEDUP_TABLE_SIZE
      then Some \<lparr>fingerprint_crypt = [255,255,255,255,255,255,255,255,
                                      255,255,255,255,255,255,255,255], ino = 0\<rparr>
      else None)"
  by (simp add: reload_apply s0_def env0_simps)

lemma strncmp_ff_fp_one:
  "strncmp [255,255,255,255,255,255,255,255,255,255,255,255,255,255,255,255] fp_one 16 \<noteq> 0"
  by (simp add: fp_one_def strncmp_numeral)

lemma search_s0: "crypt_search True (reload env0 s0) fp_one = None"
proof -
  have "\<forall>k \<le> DEDUP_TABLE_SIZE. differs (reload env0 s0) fp_one (probe (hashCrypt True fp_one) k)"
    by (simp add: differs_def reload_s0 probe_less strncmp_ff_fp_one)
  then show ?thesis
    unfolding crypt_search_def crypt_search_loop_None_iff [OF hashCrypt_less] by blast
qed

lemma not_full_s0: "\<not> (\<forall>j < DEDUP_TABLE_SIZE. live (reload env0 s0) j)"
proof
  assume "\<forall>j < DEDUP_TABLE_SIZE. live (reload env0 s0) j"
  then have "live (reload env0 s0) 0" using DEDUP_pos by blast
  then show False by (simp add: live_def reload_s0 DEDUP_pos)
qed

lemma strncpy_fp_one: "strncpy fp_one 16 = fp_one"
  unfolding fp_one_def
  by (simp add: strncpy_numeral) (simp add: numeral_eq_Suc)

lemma first_encrypt_s0:
  "crypt_search True (cryptArray (encrypt_post_step env0 inode 0 s0)) fp_one
     = Some \<lparr>fingerprint_crypt = fp_one, ino = i_ino inode\<rparr>"
  using encrypt_post_step_records [of env0 s0 0 inode] search_s0 not_full_s0
  by (simp add: hash_page7 env0_simps strncpy_fp_one)

lemma looked_up_s9:
  "looked_up env0 0 s9 = Some \<lparr>fingerprint_crypt = fp_one, ino = 9\<rparr>"
proof -
  have p: "pages s9 = pages s0" by (simp add: s9_def encrypt_post_step_pages)
  have r: "reload env0 s9 = cryptArray s9"
    unfolding s9_def by (rule reload_in_sync [OF encrypt_post_step_in_sync])
  have "i_ino (f2fs_iget env0 9) = 9" by (simp add: env0_def)
  with first_encrypt_s0 [of "f2fs_iget env0 9"]
  have c: "crypt_search True (cryptArray s9) fp_one = Some \<lparr>fingerprint_crypt = fp_one, ino = 9\<rparr>"
    unfolding s9_def by simp
  show ?thesis
    by (simp add: looked_up_def r p hash_page7 env0_simps c)
qed

lemma page7_valid:
  "PageLocked (pages s9 0)" "i_blkbits (page_host (pages s9 0)) = 12"
  "PageLocked (pages s0 0)" "i_blkbits (page_host (pages s0 0)) = 12"
  "IS_ALIGNED (4096 OR 0) (push_bit 12 1)"
  by (simp_all add: s9_def encrypt_post_step_pages s0_def page7_def inode7_def IS_ALIGNED_def)

section \<open>The claims about the block operations\<close>

text \<open>
  C8, as the claim states it: the checks of \<open>len\<close> come before any index work, for
  both directions. On the code a decrypt of a block with \<open>len = 0\<close> returns \<open>-EINVAL\<close>
  after it has read the tables of the logical-block index from their file and
  searched them.
\<close>

theorem decrypt_block_lookup_before_check:
  "calls s0 = []
   \<and> fst (fscrypt_crypt_block env0 inode7 FS_DECRYPT 9 0 0 0 0 s0) = EINVAL
   \<and> calls (snd (fscrypt_crypt_block env0 inode7 FS_DECRYPT 9 0 0 0 0 s0))
       = [Read_finger_blk_table, Finger_crypt_search fp_one]"
  by (simp add: crypt_block_invalid hash_page7) (simp add: s0_def)

text \<open>
  C8, amended. A block operation whose \<open>len\<close> is 0 or not a multiple of
  \<open>FSCRYPT_CONTENTS_ALIGNMENT\<close> returns \<open>-EINVAL\<close>; on encrypt nothing at all has
  happened by then; on decrypt the tables of the logical-block index have been read
  and searched with the digest of the source page, and the array of the ownership
  index, its file and the pages are as before. The page-level decrypt of an unlocked
  page, or with \<open>len = 0\<close>, or with \<open>len | offs\<close> not a multiple of the block size,
  returns \<open>-EINVAL\<close> having only opened the file of the ownership index.
\<close>

theorem invalid_length_fails_before_ownership_index:
  "(len = 0 \<or> len mod FSCRYPT_CONTENTS_ALIGNMENT e \<noteq> 0 \<longrightarrow>
      fscrypt_crypt_block e inode FS_ENCRYPT lblk src dst len offs s = (EINVAL, s)
      \<and> fscrypt_crypt_block e inode FS_DECRYPT lblk src dst len offs s =
          (EINVAL, s\<lparr>calls := calls s @ [Read_finger_blk_table,
             Finger_crypt_search (hash_page_data e (page_data (pages s src)))]\<rparr>))
   \<and> (\<not> PageLocked (pages s pg) \<or> len = 0
        \<or> \<not> IS_ALIGNED (len OR offs) (push_bit (i_blkbits (page_host (pages s pg))) 1) \<longrightarrow>
      fscrypt_decrypt_pagecache_blocks e pg len offs s
        = Some (EINVAL, s\<lparr>calls := calls s @ [Filp_open]\<rparr>))"
  using crypt_block_invalid [of len e inode FS_ENCRYPT lblk src dst offs s]
    crypt_block_invalid [of len e inode FS_DECRYPT lblk src dst offs s]
    pagecache_invalid [of s pg len offs e]
  by auto

theorem invalid_length_fails_before_ownership_index_witness:
  "fscrypt_crypt_block env0 inode7 FS_ENCRYPT 9 0 0 0 0 s0 = (EINVAL, s0)
   \<and> cryptArray (snd (fscrypt_crypt_block env0 inode7 FS_DECRYPT 9 0 0 0 0 s0)) = cryptArray s0
   \<and> citable (snd (fscrypt_crypt_block env0 inode7 FS_DECRYPT 9 0 0 0 0 s0)) = citable s0
   \<and> fscrypt_decrypt_pagecache_blocks env0 0 0 0 s0
       = Some (EINVAL, s0\<lparr>calls := calls s0 @ [Filp_open]\<rparr>)"
  using invalid_length_fails_before_ownership_index [of 0 env0 inode7 9 0 0 0 s0 0]
  by simp

text \<open>
  C7. No decrypt changes the file of the ownership index: neither a block decrypt nor,
  when it returns, the page-level decrypt (which returns whenever the block size is
  below \<open>2^32\<close>). A block encrypt that returns 0 leaves the file as the write loop
  over the whole final array makes it: the file then holds at least
  \<open>DEDUP_TABLE_SIZE\<close> records and record \<open>i\<close> is the item of slot \<open>i\<close>, whether or not
  an item was inserted.
\<close>

theorem backing_file_written_by_encrypt_only:
  "citable (snd (fscrypt_crypt_block e inode FS_DECRYPT lblk src dst len offs s)) = citable s
   \<and> (\<forall>r s'. fscrypt_decrypt_pagecache_blocks e pg len offs s = Some (r, s') \<longrightarrow>
          citable s' = citable s)
   \<and> (i_blkbits (page_host (pages s pg)) < 32 \<longrightarrow>
          fscrypt_decrypt_pagecache_blocks e pg len offs s \<noteq> None)
   \<and> (\<forall>s'. fscrypt_crypt_block e inode FS_ENCRYPT lblk src dst len offs s = (Success, s') \<longrightarrow>
          citable s' = write_loop (cryptArray s') 0 0 (citable s)
          \<and> in_sync (cryptArray s') (citable s'))"
proof -
  have d: "citable s' = citable s"
    if "fscrypt_decrypt_pagecache_blocks e pg len offs s = Some (r, s')" for r s'
  proof (cases "PageLocked (pages s pg) \<and> len \<noteq> 0
     \<and> IS_ALIGNED (len OR offs) (push_bit (i_blkbits (page_host (pages s pg))) 1)")
    case False
    with that pagecache_invalid [of s pg len offs e] show ?thesis by auto
  next
    case True
    with that decrypt_blocks_inv [where y = "(r, s')"] show ?thesis
      by (simp add: pagecache_valid)
  qed
  have w: "citable s' = write_loop (cryptArray s') 0 0 (citable s)
          \<and> in_sync (cryptArray s') (citable s')"
    if "fscrypt_crypt_block e inode FS_ENCRYPT lblk src dst len offs s = (Success, s')" for s'
  proof -
    from crypt_block_encrypt_success [OF that] obtain s2 where
      s2: "s' = encrypt_post_step e inode dst s2" "citable s2 = citable s" by blast
    have "citable s' = write_loop (cryptArray s') 0 0 (citable s2)"
      unfolding s2(1) by (simp add: encrypt_post_step_def Let_def)
    then have "citable s' = write_loop (cryptArray s') 0 0 (citable s)"
      by (simp only: s2(2))
    moreover have "in_sync (cryptArray s') (citable s')"
      unfolding s2(1) by (rule encrypt_post_step_in_sync)
    ultimately show ?thesis by (rule conjI)
  qed
  from d w pagecache_returns [of s pg e len offs] crypt_block_decrypt_frame [of e inode lblk src dst len offs s]
  show ?thesis by blast
qed

theorem backing_file_written_by_encrypt_only_witness:
  "fscrypt_decrypt_pagecache_blocks env0 0 4096 0 s9 \<noteq> None
   \<and> citable (snd (the (fscrypt_decrypt_pagecache_blocks env0 0 4096 0 s9))) = citable s9
   \<and> flen (citable s0) = 0
   \<and> fst (fscrypt_crypt_block env0 inode7 FS_ENCRYPT 0 0 1 4096 0 s0) = Success
   \<and> in_sync (cryptArray (snd (fscrypt_crypt_block env0 inode7 FS_ENCRYPT 0 0 1 4096 0 s0)))
        (citable (snd (fscrypt_crypt_block env0 inode7 FS_ENCRYPT 0 0 1 4096 0 s0)))"
proof -
  let ?d = "fscrypt_decrypt_pagecache_blocks env0 0 4096 0 s9"
  let ?e = "fscrypt_crypt_block env0 inode7 FS_ENCRYPT 0 0 1 4096 0 s0"
  note T = backing_file_written_by_encrypt_only [of env0 _ _ _ _ 4096 0 _ 0]
  have b: "i_blkbits (page_host (pages s9 0)) < 32" by (simp add: page7_valid)
  from T [of inode7 0 0 0 s9] b have n: "?d \<noteq> None" by blast
  then have "?d = Some (fst (the ?d), snd (the ?d))" by simp
  with T [of inode7 0 0 0 s9] have c: "citable (snd (the ?d)) = citable s9" by blast
  have f: "fst ?e = Success"
    by (simp add: fscrypt_crypt_block_def Let_def env0_def)
  then have "?e = (Success, snd ?e)" by (metis prod.collapse)
  with T [of inode7 0 0 1 s0] have "in_sync (cryptArray (snd ?e)) (citable (snd ?e))" by blast
  with n c f show ?thesis by (simp add: s0_def)
qed

lemma aligned_blocksize_nonzero:
  assumes "len \<noteq> 0" "IS_ALIGNED (len OR offs) bs"
  shows "bs \<noteq> 0"
proof
  assume "bs = 0"
  with assms(2) have "len OR offs = 0" by (simp add: IS_ALIGNED_def)
  then have "len = 0" by (simp add: or_eq_0_iff)
  with assms(1) show False by simp
qed

lemma decrypt_blocks_first:
  assumes "i < bound" "decrypt_blocks e inode pg bs bound i lblk s = Some y"
  shows "\<exists>rest. calls (snd y)
            = calls (snd (fscrypt_crypt_block e inode FS_DECRYPT lblk pg pg bs i s)) @ rest
         \<and> (\<forall>ev \<in> set rest. \<not> foreign_key (ci_tfm (i_crypt_info inode)) ev)"
proof (cases "fst (fscrypt_crypt_block e inode FS_DECRYPT lblk pg pg bs i s) \<noteq> Success")
  case True
  with assms have "y = fscrypt_crypt_block e inode FS_DECRYPT lblk pg pg bs i s"
    by (simp add: decrypt_blocks_step)
  then show ?thesis by simp
next
  case False
  with assms have "decrypt_blocks e inode pg bs bound (i + bs) (lblk + 1)
      (snd (fscrypt_crypt_block e inode FS_DECRYPT lblk pg pg bs i s)) = Some y"
    by (simp add: decrypt_blocks_step)
  from decrypt_blocks_inv [OF this] show ?thesis by blast
qed

text \<open>
  C6. When the page-level decrypt gets past its checks and returns, the array is the one
  reloaded from the file, and what \<open>crypt_search\<close> finds on it for the page's digest
  decides the key context. If an item is found, \<open>f2fs_iget\<close> is called with its \<open>ino\<close>
  right after the file was opened and before any block is decrypted; if the loop over
  the blocks is entered (\<open>offs < offs + len\<close>), the block decrypt that follows looks up
  the page's digest and, the block size passing the checks of \<open>len\<close> and the request
  being allocated, calls the cipher with the key context of that inode and the IV
  derived from that inode's info; and no later cipher call uses another key context.
  If nothing is found, the same holds with the page's own inode and no \<open>f2fs_iget\<close>.
\<close>

theorem decrypt_page_switches_to_owner:
  "PageLocked (pages s pg) \<and> len \<noteq> 0
     \<and> IS_ALIGNED (len OR offs) (push_bit (i_blkbits (page_host (pages s pg))) 1)
     \<and> fscrypt_decrypt_pagecache_blocks e pg len offs s = Some (r, s') \<longrightarrow>
   cryptArray s' = reload e s
   \<and> (\<forall>item. looked_up e pg s = Some item \<longrightarrow>
         (\<exists>evs. calls s' = calls s @ [Filp_open, F2fs_iget (ino item)] @ evs
            \<and> (\<forall>ev \<in> set evs. \<not> foreign_key
                  (ci_tfm (i_crypt_info (fscrypt_require_key e (f2fs_iget e (ino item))))) ev)
            \<and> (offs < offs + len
                 \<and> push_bit (i_blkbits (page_host (pages s pg))) 1
                      mod FSCRYPT_CONTENTS_ALIGNMENT e = 0
                 \<and> skcipher_request_alloc e \<longrightarrow>
                (\<exists>rest. evs =
                   [Read_finger_blk_table,
                    Finger_crypt_search (hash_page_data e (page_data (pages s pg))),
                    Skcipher FS_DECRYPT
                      (ci_tfm (i_crypt_info (fscrypt_require_key e (f2fs_iget e (ino item)))))
                      (fscrypt_generate_iv e
                         (case finger_crypt_search e
                                 (hash_page_data e (page_data (pages s pg))) of
                            Some found \<Rightarrow> lblk_num found
                          | None \<Rightarrow>
                              push_bit (PAGE_SHIFT e - i_blkbits (page_host (pages s pg)))
                                (page_index (pages s pg))
                              + ucast (drop_bit (i_blkbits (page_host (pages s pg))) offs))
                         (i_crypt_info (fscrypt_require_key e (f2fs_iget e (ino item)))))]
                   @ rest))))
   \<and> (looked_up e pg s = None \<longrightarrow>
         (\<exists>evs. calls s' = calls s @ [Filp_open] @ evs
            \<and> (\<forall>ev \<in> set evs. \<not> foreign_key
                  (ci_tfm (i_crypt_info (page_host (pages s pg)))) ev)
            \<and> (offs < offs + len
                 \<and> push_bit (i_blkbits (page_host (pages s pg))) 1
                      mod FSCRYPT_CONTENTS_ALIGNMENT e = 0
                 \<and> skcipher_request_alloc e \<longrightarrow>
                (\<exists>rest. evs =
                   [Read_finger_blk_table,
                    Finger_crypt_search (hash_page_data e (page_data (pages s pg))),
                    Skcipher FS_DECRYPT
                      (ci_tfm (i_crypt_info (page_host (pages s pg))))
                      (fscrypt_generate_iv e
                         (case finger_crypt_search e
                                 (hash_page_data e (page_data (pages s pg))) of
                            Some found \<Rightarrow> lblk_num found
                          | None \<Rightarrow>
                              push_bit (PAGE_SHIFT e - i_blkbits (page_host (pages s pg)))
                                (page_index (pages s pg))
                              + ucast (drop_bit (i_blkbits (page_host (pages s pg))) offs))
                         (i_crypt_info (page_host (pages s pg))))]
                   @ rest))))"
proof (intro impI, elim conjE)
  assume v: "PageLocked (pages s pg)" "len \<noteq> 0"
    "IS_ALIGNED (len OR offs) (push_bit (i_blkbits (page_host (pages s pg))) 1)"
    and res: "fscrypt_decrypt_pagecache_blocks e pg len offs s = Some (r, s')"
  let ?host = "page_host (pages s pg)"
  let ?bs = "push_bit (i_blkbits ?host) 1 :: 32 word"
  let ?own = "owner_inode e ?host (looked_up e pg s)"
  let ?d = "hash_page_data e (page_data (pages s pg))"
  let ?lblk = "push_bit (PAGE_SHIFT e - i_blkbits ?host) (page_index (pages s pg))
          + ucast (drop_bit (i_blkbits ?host) offs)"
  let ?pre = "calls s @ [Filp_open]
     @ (case looked_up e pg s of Some item \<Rightarrow> [F2fs_iget (ino item)] | None \<Rightarrow> [])"
  let ?s2 = "s\<lparr>cryptArray := reload e s, calls := ?pre\<rparr>"
  let ?first = "\<lambda>inode. [Read_finger_blk_table, Finger_crypt_search ?d,
      Skcipher FS_DECRYPT (ci_tfm (i_crypt_info inode))
        (fscrypt_generate_iv e
           (case finger_crypt_search e ?d of Some found \<Rightarrow> lblk_num found | None \<Rightarrow> ?lblk)
           (i_crypt_info inode))]"
  have nz: "?bs \<noteq> 0" by (rule aligned_blocksize_nonzero [OF v(2,3)])
  from res have run: "decrypt_blocks e ?own pg ?bs (offs + len) offs ?lblk ?s2 = Some (r, s')"
    by (simp only: pagecache_valid [OF v])
  from decrypt_blocks_inv [OF run] obtain evs where
    a: "cryptArray s' = reload e s" and c: "calls s' = ?pre @ evs"
    and q: "\<forall>ev \<in> set evs. \<not> foreign_key (ci_tfm (i_crypt_info ?own)) ev"
    by auto
  have f: "\<exists>rest. evs = ?first ?own @ rest"
    if go: "offs < offs + len" "?bs mod FSCRYPT_CONTENTS_ALIGNMENT e = 0"
      "skcipher_request_alloc e"
  proof -
    from decrypt_blocks_first [OF go(1) run] obtain rest where
      "calls s' = calls (snd (fscrypt_crypt_block e ?own FS_DECRYPT ?lblk pg pg ?bs offs ?s2)) @ rest"
      by auto
    then have "calls s' = ?pre @ ?first ?own @ rest"
      using nz go(2,3) by (simp add: crypt_block_decrypt_calls)
    with c have "evs = ?first ?own @ rest" by simp
    then show ?thesis by blast
  qed
  have "\<exists>evs. calls s' = calls s @ [Filp_open, F2fs_iget (ino item)] @ evs
      \<and> (\<forall>ev \<in> set evs. \<not> foreign_key
            (ci_tfm (i_crypt_info (fscrypt_require_key e (f2fs_iget e (ino item))))) ev)
      \<and> (offs < offs + len \<and> ?bs mod FSCRYPT_CONTENTS_ALIGNMENT e = 0
           \<and> skcipher_request_alloc e \<longrightarrow>
          (\<exists>rest. evs = ?first (fscrypt_require_key e (f2fs_iget e (ino item))) @ rest))"
    if "looked_up e pg s = Some item" for item
    using that c q f by (intro exI [of _ evs]) (simp add: owner_inode_def)
  moreover have "\<exists>evs. calls s' = calls s @ [Filp_open] @ evs
      \<and> (\<forall>ev \<in> set evs. \<not> foreign_key (ci_tfm (i_crypt_info ?host)) ev)
      \<and> (offs < offs + len \<and> ?bs mod FSCRYPT_CONTENTS_ALIGNMENT e = 0
           \<and> skcipher_request_alloc e \<longrightarrow>
          (\<exists>rest. evs = ?first ?host @ rest))"
    if "looked_up e pg s = None"
    using that c q f by (intro exI [of _ evs]) (simp add: owner_inode_def)
  ultimately show "cryptArray s' = reload e s
   \<and> (\<forall>item. looked_up e pg s = Some item \<longrightarrow>
         (\<exists>evs. calls s' = calls s @ [Filp_open, F2fs_iget (ino item)] @ evs
            \<and> (\<forall>ev \<in> set evs. \<not> foreign_key
                  (ci_tfm (i_crypt_info (fscrypt_require_key e (f2fs_iget e (ino item))))) ev)
            \<and> (offs < offs + len \<and> ?bs mod FSCRYPT_CONTENTS_ALIGNMENT e = 0
                 \<and> skcipher_request_alloc e \<longrightarrow>
                (\<exists>rest. evs = ?first (fscrypt_require_key e (f2fs_iget e (ino item))) @ rest))))
   \<and> (looked_up e pg s = None \<longrightarrow>
         (\<exists>evs. calls s' = calls s @ [Filp_open] @ evs
            \<and> (\<forall>ev \<in> set evs. \<not> foreign_key (ci_tfm (i_crypt_info ?host)) ev)
            \<and> (offs < offs + len \<and> ?bs mod FSCRYPT_CONTENTS_ALIGNMENT e = 0
                 \<and> skcipher_request_alloc e \<longrightarrow>
                (\<exists>rest. evs = ?first ?host @ rest))))"
    using a by blast
qed


lemma env0_owner9:
  "fscrypt_require_key env0 (f2fs_iget env0 9) = f2fs_iget env0 9"
  "ci_tfm (i_crypt_info (f2fs_iget env0 9)) = 9"
  by (simp_all add: env0_def)

lemma hash_page_s9: "hash_page_data env0 (page_data (pages s9 n)) = fp_one"
  using hash_page7 [of n] by (simp add: s9_def encrypt_post_step_pages)

theorem decrypt_page_switches_to_owner_witness:
  "i_ino (page_host (pages s9 0)) = 7
   \<and> looked_up env0 0 s9 = Some \<lparr>fingerprint_crypt = fp_one, ino = 9\<rparr>
   \<and> fscrypt_decrypt_pagecache_blocks env0 0 4096 0 s9 \<noteq> None
   \<and> (\<exists>rest. calls (snd (the (fscrypt_decrypt_pagecache_blocks env0 0 4096 0 s9)))
              = calls s9 @ [Filp_open, F2fs_iget 9, Read_finger_blk_table,
                            Finger_crypt_search fp_one,
                            Skcipher FS_DECRYPT 9
                              (fscrypt_generate_iv env0 5 (i_crypt_info (f2fs_iget env0 9)))]
                  @ rest
          \<and> list_all (\<lambda>ev. \<not> foreign_key 9 ev) rest)"
proof -
  let ?d = "fscrypt_decrypt_pagecache_blocks env0 0 4096 0 s9"
  let ?iv = "fscrypt_generate_iv env0 5 (i_crypt_info (f2fs_iget env0 9))"
  have h: "i_ino (page_host (pages s9 0)) = 7"
    by (simp add: s9_def encrypt_post_step_pages s0_def page7_def inode7_def)
  have "i_blkbits (page_host (pages s9 0)) < 32" by (simp add: page7_valid)
  then have n: "?d \<noteq> None" by (rule pagecache_returns)
  then have eq: "?d = Some (fst (the ?d), snd (the ?d))" by simp
  have hyp: "PageLocked (pages s9 0) \<and> (4096 :: 32 word) \<noteq> 0
     \<and> IS_ALIGNED (4096 OR 0) (push_bit (i_blkbits (page_host (pages s9 0))) 1)
     \<and> ?d = Some (fst (the ?d), snd (the ?d))"
    using eq by (simp add: page7_valid IS_ALIGNED_def)
  note T = decrypt_page_switches_to_owner
    [of s9 0 4096 0 env0 "fst (the ?d)" "snd (the ?d)", THEN mp, OF hyp,
     THEN conjunct2, THEN conjunct1, THEN spec, THEN mp, OF looked_up_s9]
  then obtain evs where
    c: "calls (snd (the ?d)) = calls s9 @ [Filp_open, F2fs_iget 9] @ evs"
    and q: "\<forall>ev \<in> set evs. \<not> foreign_key 9 ev"
    and f: "(0 :: 32 word) < 0 + 4096
         \<and> push_bit (i_blkbits (page_host (pages s9 0))) 1
              mod FSCRYPT_CONTENTS_ALIGNMENT env0 = (0 :: 32 word)
         \<and> skcipher_request_alloc env0 \<longrightarrow>
        (\<exists>rest. evs = [Read_finger_blk_table, Finger_crypt_search fp_one,
                        Skcipher FS_DECRYPT 9 ?iv] @ rest)"
    by (auto simp add: env0_owner9 hash_page_s9 env0_simps)
  have "(0 :: 32 word) < 0 + 4096
         \<and> push_bit (i_blkbits (page_host (pages s9 0))) 1
              mod FSCRYPT_CONTENTS_ALIGNMENT env0 = (0 :: 32 word)
         \<and> skcipher_request_alloc env0"
    by (simp add: page7_valid env0_simps)
  with f obtain rest where
    r: "evs = [Read_finger_blk_table, Finger_crypt_search fp_one,
               Skcipher FS_DECRYPT 9 ?iv] @ rest" by blast
  with q have "list_all (\<lambda>ev. \<not> foreign_key 9 ev) rest" by (simp add: list_all_iff)
  moreover from c r have "calls (snd (the ?d))
      = calls s9 @ [Filp_open, F2fs_iget 9, Read_finger_blk_table,
                    Finger_crypt_search fp_one, Skcipher FS_DECRYPT 9 ?iv] @ rest"
    by simp
  ultimately show ?thesis using h n looked_up_s9 by blast
qed

text \<open>
  C9. Running the encrypt post-step a second time with the same ciphertext page and the
  same inode changes neither the array nor the file, so the result of \<open>crypt_search\<close>
  for the digest is the same. After the first run the array and the file agree, the
  reload of the second run gives back the same array, and the digest is found on it
  unless every slot is live (the insert of the first run then returned 1 and stored
  nothing); so the second run takes the branch without \<open>crypttable_insert\<close>. When the
  first run found nothing and some slot was not live, it inserted, and the search then
  returns the inserted item.
\<close>

theorem encrypt_post_step_idempotent:
  "cryptArray (encrypt_post_step e inode dp (encrypt_post_step e inode dp s))
     = cryptArray (encrypt_post_step e inode dp s)
   \<and> citable (encrypt_post_step e inode dp (encrypt_post_step e inode dp s))
     = citable (encrypt_post_step e inode dp s)
   \<and> reload e (encrypt_post_step e inode dp s) = cryptArray (encrypt_post_step e inode dp s)
   \<and> crypt_search (char_signed e)
        (cryptArray (encrypt_post_step e inode dp (encrypt_post_step e inode dp s)))
        (hash_page_data e (page_data (pages s dp)))
     = crypt_search (char_signed e) (cryptArray (encrypt_post_step e inode dp s))
        (hash_page_data e (page_data (pages s dp)))
   \<and> (crypt_search (char_signed e) (cryptArray (encrypt_post_step e inode dp s))
        (hash_page_data e (page_data (pages s dp))) = None
      \<longrightarrow> (\<forall>j < DEDUP_TABLE_SIZE. live (cryptArray (encrypt_post_step e inode dp s)) j))
   \<and> (crypt_search (char_signed e) (reload e s) (hash_page_data e (page_data (pages s dp))) = None
        \<and> \<not> (\<forall>j < DEDUP_TABLE_SIZE. live (reload e s) j)
      \<longrightarrow> crypt_search (char_signed e) (cryptArray (encrypt_post_step e inode dp s))
            (hash_page_data e (page_data (pages s dp)))
          = Some \<lparr>fingerprint_crypt = strncpy (hash_page_data e (page_data (pages s dp))) 16,
                  ino = i_ino inode\<rparr>)"
  using encrypt_post_step_records [of e s dp inode]
    encrypt_post_step_unfound_full [of e inode dp s]
    reload_in_sync [OF encrypt_post_step_in_sync [of e inode dp s]]
  by (simp add: encrypt_post_step_twice)

theorem encrypt_post_step_idempotent_witness:
  "crypt_search True (reload env0 s0) fp_one = None
   \<and> crypt_search True (cryptArray (encrypt_post_step env0 inode7 0 s0)) fp_one
       = Some \<lparr>fingerprint_crypt = fp_one, ino = 7\<rparr>
   \<and> crypt_search True
        (cryptArray (encrypt_post_step env0 inode7 0 (encrypt_post_step env0 inode7 0 s0))) fp_one
       = Some \<lparr>fingerprint_crypt = fp_one, ino = 7\<rparr>"
proof -
  note T = encrypt_post_step_idempotent [of env0 inode7 0 s0]
  have i: "i_ino inode7 = 7" by (simp add: inode7_def)
  from T search_s0 not_full_s0
  have a: "crypt_search True (cryptArray (encrypt_post_step env0 inode7 0 s0)) fp_one
       = Some \<lparr>fingerprint_crypt = fp_one, ino = 7\<rparr>"
    by (simp add: hash_page7 env0_simps strncpy_fp_one i)
  from T have "crypt_search True
        (cryptArray (encrypt_post_step env0 inode7 0 (encrypt_post_step env0 inode7 0 s0))) fp_one
     = crypt_search True (cryptArray (encrypt_post_step env0 inode7 0 s0)) fp_one"
    by (simp add: hash_page7 env0_simps)
  with a search_s0 show ?thesis by simp
qed

section \<open>The index on fingerprints without NUL bytes\<close>

text \<open>
  Where \<open>strncmp\<close> and \<open>strncpy\<close> see no NUL byte they compare and copy all 16
  bytes, and the index then keeps two fingerprints apart: starting from an array in
  which no slot matches either of them, with a live first owner and room for both, each
  search returns the entry recorded for it, also when both hash to the same slot.
\<close>

lemma strncpy_whole:
  "n \<le> length f \<Longrightarrow> 0 \<notin> set (take (n - 1) f) \<Longrightarrow> strncpy f n = take n f"
proof (induction f n rule: strncpy.induct)
  case (3 c src count)
  show ?case
  proof (cases count)
    case 0
    then show ?thesis by simp
  next
    case (Suc m)
    with 3 show ?thesis by auto
  qed
qed simp_all

lemma strncmp_no_NUL:
  "n \<le> length a \<Longrightarrow> n \<le> length b \<Longrightarrow> 0 \<notin> set (take n a) \<Longrightarrow>
   strncmp a b n = 0 \<longleftrightarrow> take n a = take n b"
proof (induction a b n rule: strncmp.induct)
  case (2 c1 cs c2 ct count)
  then show ?case by auto
qed simp_all

lemma crypttable_insert_full:
  "\<forall>j < DEDUP_TABLE_SIZE. live arr j \<Longrightarrow> crypttable_insert cs f i arr = (1, arr)"
  using insert_probe_None_iff [OF hashCrypt_less, of arr cs f]
  by (simp add: crypttable_insert_def)

lemma crypttable_insert_room:
  assumes "\<not> (\<forall>j < DEDUP_TABLE_SIZE. live arr j)"
  shows "\<exists>k \<le> DEDUP_TABLE_SIZE.
           (\<forall>j<k. live arr (probe (hashCrypt cs f) j))
           \<and> \<not> live arr (probe (hashCrypt cs f) k)
           \<and> crypttable_insert cs f i arr =
               (0, arr(probe (hashCrypt cs f) k \<mapsto>
                     \<lparr>fingerprint_crypt = strncpy f 16, ino = i\<rparr>))"
proof -
  from assms obtain p where p: "insert_probe arr (hashCrypt cs f) 0 = Some p"
    using insert_probe_None_iff [OF hashCrypt_less, of arr cs f] by auto
  then obtain k where "k \<le> DEDUP_TABLE_SIZE" "p = probe (hashCrypt cs f) k" "\<not> live arr p"
      "\<forall>j<k. live arr (probe (hashCrypt cs f) j)"
    unfolding insert_probe_Some_iff [OF hashCrypt_less] by auto
  with p show ?thesis by (auto simp add: crypttable_insert_def)
qed

lemma insert_position:
  assumes N: "crypt_search cs arr d = None"
    and P: "insert_probe arr (hashCrypt cs d) 0 = Some p"
  obtains k where "k \<le> DEDUP_TABLE_SIZE" "p = probe (hashCrypt cs d) k" "\<not> live arr p"
    "\<forall>j<k. live arr (probe (hashCrypt cs d) j) \<and> differs arr d (probe (hashCrypt cs d) j)"
proof -
  let ?h = "hashCrypt cs d"
  have h: "?h < DEDUP_TABLE_SIZE" by (rule hashCrypt_less)
  from P obtain k where k: "k \<le> DEDUP_TABLE_SIZE" "p = probe ?h k" "\<not> live arr p"
      "\<forall>j<k. live arr (probe ?h j)"
    unfolding insert_probe_Some_iff [OF h] by auto
  have "differs arr d (probe ?h j)" if "j < k" for j
  proof -
    from N have "(\<exists>k' \<le> DEDUP_TABLE_SIZE. arr (probe ?h k') = None
          \<and> (\<forall>j<k'. differs arr d (probe ?h j)))
        \<or> (\<forall>k' \<le> DEDUP_TABLE_SIZE. differs arr d (probe ?h k'))"
      unfolding crypt_search_def crypt_search_loop_None_iff [OF h] .
    then show ?thesis
    proof
      assume "\<exists>k' \<le> DEDUP_TABLE_SIZE. arr (probe ?h k') = None
          \<and> (\<forall>j<k'. differs arr d (probe ?h j))"
      then obtain k' where k': "arr (probe ?h k') = None" "\<forall>j<k'. differs arr d (probe ?h j)"
        by blast
      have "\<not> live arr (probe ?h k')" using k'(1) by (simp add: live_def)
      with k(4) have "\<not> k' < k" by blast
      with that have "j < k'" by simp
      with k'(2) show ?thesis by blast
    next
      assume "\<forall>k' \<le> DEDUP_TABLE_SIZE. differs arr d (probe ?h k')"
      moreover have "j \<le> DEDUP_TABLE_SIZE" using that k(1) by simp
      ultimately show ?thesis by blast
    qed
  qed
  with k that show thesis by blast
qed

lemma no_match_search:
  assumes "\<forall>i < DEDUP_TABLE_SIZE. \<forall>it. arr i = Some it \<longrightarrow> strncmp (fingerprint_crypt it) f 16 \<noteq> 0"
  shows "crypt_search cs arr f = None"
proof (cases "crypt_search cs arr f")
  case (Some it)
  then obtain k where "arr (probe (hashCrypt cs f) k) = Some it"
      "strncmp (fingerprint_crypt it) f 16 = 0"
    unfolding crypt_search_def crypt_search_loop_Some_iff [OF hashCrypt_less] by blast
  with assms probe_less show ?thesis by blast
qed simp

lemma two_fingerprints_resolved:
  assumes none1: "\<forall>i < DEDUP_TABLE_SIZE. \<forall>it. arr i = Some it \<longrightarrow>
                    strncmp (fingerprint_crypt it) f1 16 \<noteq> 0"
    and none2: "\<forall>i < DEDUP_TABLE_SIZE. \<forall>it. arr i = Some it \<longrightarrow>
                    strncmp (fingerprint_crypt it) f2 16 \<noteq> 0"
    and apart: "strncmp (strncpy f1 16) f2 16 \<noteq> 0"
    and owner: "o1 \<noteq> 0"
    and room1: "\<not> (\<forall>j < DEDUP_TABLE_SIZE. live arr j)"
    and room2: "\<not> (\<forall>j < DEDUP_TABLE_SIZE. live (search_then_insert cs f1 o1 arr) j)"
  shows "crypt_search cs (search_then_insert cs f2 o2 (search_then_insert cs f1 o1 arr)) f1
           = Some \<lparr>fingerprint_crypt = strncpy f1 16, ino = o1\<rparr>
       \<and> crypt_search cs (search_then_insert cs f2 o2 (search_then_insert cs f1 o1 arr)) f2
           = Some \<lparr>fingerprint_crypt = strncpy f2 16, ino = o2\<rparr>"
proof -
  let ?new1 = "\<lparr>fingerprint_crypt = strncpy f1 16, ino = o1\<rparr>"
  let ?new2 = "\<lparr>fingerprint_crypt = strncpy f2 16, ino = o2\<rparr>"
  let ?arr1 = "search_then_insert cs f1 o1 arr"
  let ?arr2 = "search_then_insert cs f2 o2 ?arr1"
  let ?h1 = "hashCrypt cs f1"
  have s1: "crypt_search cs arr f1 = None" using none1 by (rule no_match_search)
  from room1 obtain p1 where p1: "insert_probe arr ?h1 0 = Some p1"
    using insert_probe_None_iff [OF hashCrypt_less, of arr cs f1] by auto
  have arr1: "?arr1 = arr(p1 \<mapsto> ?new1)"
    using s1 p1 by (simp add: search_then_insert_def crypttable_insert_def)
  from insert_position [OF s1 p1] obtain k1 where
    k1: "k1 \<le> DEDUP_TABLE_SIZE" "p1 = probe ?h1 k1" "\<not> live arr p1"
    "\<forall>j<k1. live arr (probe ?h1 j) \<and> differs arr f1 (probe ?h1 j)" by blast
  have "\<forall>i < DEDUP_TABLE_SIZE. \<forall>it. ?arr1 i = Some it \<longrightarrow>
          strncmp (fingerprint_crypt it) f2 16 \<noteq> 0"
    using none2 apart by (auto simp add: arr1)
  then have s2: "crypt_search cs ?arr1 f2 = None" by (rule no_match_search)
  from room2 obtain p2 where p2: "insert_probe ?arr1 (hashCrypt cs f2) 0 = Some p2"
    using insert_probe_None_iff [OF hashCrypt_less, of ?arr1 cs f2] by auto
  have arr2: "?arr2 = ?arr1(p2 \<mapsto> ?new2)"
    using s2 p2 by (simp add: search_then_insert_def crypttable_insert_def)
  have both: "?arr2 = (arr(p1 \<mapsto> ?new1))(p2 \<mapsto> ?new2)"
    using arr2 by (simp only: arr1)
  have second: "crypt_search cs ?arr2 f2 = Some ?new2"
    unfolding arr2 by (rule insert_then_search [OF s2 p2])
  have nl2: "\<not> live ?arr1 p2"
    by (rule insert_probe_Some_not_live [OF hashCrypt_less p2])
  have l1: "live ?arr1 p1" using owner by (simp add: arr1 live_def word_greater_zero_iff)
  have ne: "p2 \<noteq> p1" using nl2 l1 by auto
  have path: "?arr2 (probe ?h1 j) = arr (probe ?h1 j)" if "j < k1" for j
  proof -
    have lv: "live arr (probe ?h1 j)" using k1(4) that by blast
    with k1(3) have a: "probe ?h1 j \<noteq> p1" by auto
    then have "live ?arr1 (probe ?h1 j)" using lv by (simp add: arr1 live_def)
    with nl2 have "probe ?h1 j \<noteq> p2" by auto
    with a show ?thesis by (simp add: both)
  qed
  have "\<forall>j<k1. differs ?arr2 f1 (probe ?h1 j)"
    using path k1(4) by (simp add: differs_def)
  moreover have "?arr2 (probe ?h1 k1) = Some ?new1"
    using ne k1(2) by (simp add: both)
  moreover have "strncmp (fingerprint_crypt ?new1) f1 16 = 0" by (simp add: strncmp_strncpy)
  ultimately have "k1 \<le> DEDUP_TABLE_SIZE - 0 \<and> ?arr2 (probe ?h1 k1) = Some ?new1
      \<and> strncmp (fingerprint_crypt ?new1) f1 16 = 0 \<and> (\<forall>j<k1. differs ?arr2 f1 (probe ?h1 j))"
    using k1(1) by simp
  then have "crypt_search_loop ?arr2 f1 ?h1 0 = Some ?new1"
    unfolding crypt_search_loop_Some_iff [OF hashCrypt_less] by (rule exI [of _ k1])
  then have "crypt_search cs ?arr2 f1 = Some ?new1" by (simp add: crypt_search_def)
  with second show ?thesis by simp
qed

lemma two_NUL_free_fingerprints_resolved:
  assumes "length f1 = 16" "length f2 = 16" "0 \<notin> set f1" "0 \<notin> set f2" "f1 \<noteq> f2"
    and "\<forall>i < DEDUP_TABLE_SIZE. \<forall>it. arr i = Some it \<longrightarrow>
            strncmp (fingerprint_crypt it) f1 16 \<noteq> 0 \<and> strncmp (fingerprint_crypt it) f2 16 \<noteq> 0"
    and "o1 \<noteq> 0"
    and "\<not> (\<forall>j < DEDUP_TABLE_SIZE. live arr j)"
    and "\<not> (\<forall>j < DEDUP_TABLE_SIZE. live (search_then_insert cs f1 o1 arr) j)"
  shows "crypt_search cs (search_then_insert cs f2 o2 (search_then_insert cs f1 o1 arr)) f1
           = Some \<lparr>fingerprint_crypt = f1, ino = o1\<rparr>
       \<and> crypt_search cs (search_then_insert cs f2 o2 (search_then_insert cs f1 o1 arr)) f2
           = Some \<lparr>fingerprint_crypt = f2, ino = o2\<rparr>"
proof -
  have c1: "strncpy f1 16 = f1" using assms(1,3)
    by (subst strncpy_whole) (auto dest: in_set_takeD)
  have c2: "strncpy f2 16 = f2" using assms(2,4)
    by (subst strncpy_whole) (auto dest: in_set_takeD)
  have "strncmp f1 f2 16 \<noteq> 0"
    using assms(1-3,5) by (simp add: strncmp_no_NUL)
  with two_fingerprints_resolved [of arr f1 f2 o1 cs o2] assms(6-9) c1 c2
  show ?thesis by simp
qed

end
